theory Spec2Isabelle
  imports Complex_Main "HOL-Library.AList" "HOL-Library.Log_Nat" "HOL-Library.Word"
begin

section \<open>VideoMancer background service worker: the stream acquisition engine\<close>

text \<open>
  A shallow embedding of the download path of the background service worker
  (the second, authentication-aware version of the worker in \<^verbatim>\<open>src/unnamed/part_001\<close>,
  lines 756 to 1760): the M3U8 parsers, the captured request headers, the authenticated
  fetch, the HLS and DASH segment loops and the file-name sanitiser.

  JavaScript strings are modelled as HOL strings, a list of 8-bit characters: the model
  covers text whose UTF-16 code units are below 256. Everything the worker obtains from
  the browser (the URL parser, \<^verbatim>\<open>fetch\<close>, \<^verbatim>\<open>parseFloat\<close>, the cookie and tab stores,
  AES-CBC, the DOM walk over an MPD document) is a field of the record \<open>platform\<close>.
\<close>

subsection \<open>JavaScript string primitives\<close>

definition js_space :: "char \<Rightarrow> bool" where
  \<comment> \<open>the code units below 256 that \<^verbatim>\<open>\s\<close> and \<^verbatim>\<open>trim()\<close> treat as white space\<close>
  "js_space c =
     (c \<in> set [CHR 0x09, CHR 0x0A, CHR 0x0B, CHR 0x0C, CHR 0x0D, CHR 0x20, CHR 0xA0])"

definition js_trim :: "string \<Rightarrow> string" where
  "js_trim s = rev (dropWhile js_space (rev (dropWhile js_space s)))"

definition startsWith :: "string \<Rightarrow> string \<Rightarrow> bool" where
  \<comment> \<open>\<^verbatim>\<open>s.startsWith(p)\<close>\<close>
  "startsWith s p = (take (length p) s = p)"

fun js_split :: "char \<Rightarrow> string \<Rightarrow> string list" where
  \<comment> \<open>\<^verbatim>\<open>s.split(c)\<close> for a one-character separator: never the empty list\<close>
  "js_split c [] = [[]]"
| "js_split c (x # xs) =
     (if x = c then [] # js_split c xs
      else (case js_split c xs of [] \<Rightarrow> [[x]] | y # ys \<Rightarrow> (x # y) # ys))"

definition is_digit :: "char \<Rightarrow> bool" where
  "is_digit c = ((48::nat) \<le> of_char c \<and> (of_char c :: nat) \<le> 57)"

definition digit_val :: "char \<Rightarrow> nat" where
  "digit_val c = of_char c - 48"

definition decimal_value :: "string \<Rightarrow> nat" where
  \<comment> \<open>the integer that a run of decimal digits denotes, exactly\<close>
  "decimal_value ds = foldl (\<lambda>n c. 10 * n + digit_val c) 0 ds"

definition to_lower :: "char \<Rightarrow> char" where
  \<comment> \<open>case folding of a regular expression with the \<^verbatim>\<open>i\<close> flag: ASCII letters only\<close>
  "to_lower c =
     (case map_of (zip ''ABCDEFGHIJKLMNOPQRSTUVWXYZ'' ''abcdefghijklmnopqrstuvwxyz'') c of
        None \<Rightarrow> c
      | Some l \<Rightarrow> l)"

fun regex_scan :: "(string \<Rightarrow> 'a option) \<Rightarrow> string \<Rightarrow> 'a option" where
  \<comment> \<open>an unanchored regular expression: the matcher is tried at every position, leftmost
      first, the end of the string included\<close>
  "regex_scan m [] = m []"
| "regex_scan m (c # cs) =
     (case m (c # cs) of Some r \<Rightarrow> Some r | None \<Rightarrow> regex_scan m cs)"

subsection \<open>File names\<close>

definition reserved_char :: "char \<Rightarrow> bool" where
  \<comment> \<open>the character class \<^verbatim>\<open>[<>:"/\\|?*]\<close>\<close>
  "reserved_char c =
     (c \<in> set [CHR ''<'', CHR ''>'', CHR '':'', CHR 0x22, CHR ''/'', CHR 0x5C, CHR ''|'',
                CHR ''?'', CHR ''*''])"

fun collapse_ws :: "bool \<Rightarrow> string \<Rightarrow> string" where
  \<comment> \<open>\<^verbatim>\<open>.replace(/\s+/g, ' ')\<close>: every maximal run of white space becomes one space; the
      flag says that the previous character belonged to a run\<close>
  "collapse_ws in_run [] = []"
| "collapse_ws in_run (c # cs) =
     (if js_space c then (if in_run then collapse_ws True cs else CHR '' '' # collapse_ws True cs)
      else c # collapse_ws False cs)"

definition sanitizeFilename :: "string \<Rightarrow> string" where
  "sanitizeFilename name =
     take 200 (js_trim (collapse_ws False (map (\<lambda>c. if reserved_char c then CHR ''_'' else c) name)))"

definition strip_ext :: "string list \<Rightarrow> string \<Rightarrow> string" where
  \<comment> \<open>\<^verbatim>\<open>name.replace(/\.(e1|e2|...)$/i, '')\<close>: the first listed extension that ends the
      name, compared without case, is cut off together with its dot\<close>
  "strip_ext exts name =
     (case find (\<lambda>e. length e < length name \<and>
                      map to_lower (drop (length name - Suc (length e)) name) = CHR ''.'' # e) exts of
        None \<Rightarrow> name
      | Some e \<Rightarrow> take (length name - Suc (length e)) name)"

subsection \<open>Numbers\<close>

text \<open>
  JavaScript's Number type is the binary64 format of IEEE 754. A finite value is kept as
  the rational it denotes, \<open>Fin r\<close>; the negative zero is a value of its own. The result
  of an operation is the double nearest to the exact result: \<open>nearest_double\<close> rounds a
  rational to 53 significant bits (to the multiples of \<open>2 ^ - 1074\<close> below the normal
  range), a tie to the even significand, and \<open>round_double\<close> replaces what lies beyond the
  largest finite double by an infinity and keeps the sign of a result that is rounded to
  zero. A Number that the browser hands over (\<^verbatim>\<open>parseFloat\<close>, the attributes of a
  segment template) is taken as it is.
\<close>

datatype jsnum = NaN | PosInf | NegInf | NegZero | Fin rat

definition binary_exponent :: "rat \<Rightarrow> int" where
  \<comment> \<open>for a positive \<open>x\<close>, the \<open>e\<close> with \<open>2 ^ e \<le> x < 2 ^ (e + 1)\<close>: the difference of the
      bit lengths of numerator and denominator, or one less\<close>
  "binary_exponent x =
     (case quotient_of x of
        (p, q) \<Rightarrow> (let d = bitlen p - bitlen q in if 2 powi d \<le> x then d else d - 1))"

definition round_half_even :: "rat \<Rightarrow> int" where
  \<comment> \<open>the nearest integer, the even one of two that are equally near\<close>
  "round_half_even q =
     (let f = \<lfloor>q\<rfloor>; d = q - of_int f
      in if d < 1 / 2 then f else if 1 / 2 < d then f + 1 else if even f then f else f + 1)"

definition nearest_double :: "rat \<Rightarrow> rat" where
  \<comment> \<open>the nearest multiple of the unit in the last place, which is \<open>2 ^ (e - 52)\<close> for a
      value of exponent \<open>e\<close> and \<open>2 ^ - 1074\<close> below the exponent \<open>- 1022\<close>\<close>
  "nearest_double x =
     (if x = 0 then 0
      else (let k = max (binary_exponent \<bar>x\<bar>) (- 1022) - 52
            in sgn x * of_int (round_half_even (\<bar>x\<bar> / 2 powi k)) * 2 powi k))"

definition finite_double :: "rat \<Rightarrow> jsnum" where
  \<comment> \<open>the rounded value of a result within the range of the doubles\<close>
  "finite_double x =
     (let d = nearest_double x in if d = 0 \<and> x < 0 then NegZero else Fin d)"

definition round_double :: "rat \<Rightarrow> jsnum" where
  \<comment> \<open>the Number for an exact result: an infinity when the rounded value reaches
      \<open>2 ^ 1024\<close>\<close>
  "round_double x =
     (if 2 ^ 1024 \<le> \<bar>nearest_double x\<bar> then (if x < 0 then NegInf else PosInf)
      else finite_double x)"

definition sign_bit :: "jsnum \<Rightarrow> bool" where
  "sign_bit x = (case x of NegInf \<Rightarrow> True | NegZero \<Rightarrow> True | Fin r \<Rightarrow> r < 0 | _ \<Rightarrow> False)"

definition is_inf :: "jsnum \<Rightarrow> bool" where
  "is_inf x = (x = PosInf \<or> x = NegInf)"

definition is_zero :: "jsnum \<Rightarrow> bool" where
  "is_zero x = (x = Fin 0 \<or> x = NegZero)"

definition rat_of :: "jsnum \<Rightarrow> rat" where
  "rat_of x = (case x of Fin r \<Rightarrow> r | _ \<Rightarrow> 0)"

definition number_truthy :: "jsnum \<Rightarrow> bool" where
  \<comment> \<open>a number in a condition: false for both zeros and for NaN\<close>
  "number_truthy x = (x \<noteq> NaN \<and> \<not> is_zero x)"

definition js_neg :: "jsnum \<Rightarrow> jsnum" where
  \<comment> \<open>\<^verbatim>\<open>- x\<close>\<close>
  "js_neg x =
     (case x of
        NaN \<Rightarrow> NaN | PosInf \<Rightarrow> NegInf | NegInf \<Rightarrow> PosInf | NegZero \<Rightarrow> Fin 0
      | Fin r \<Rightarrow> if r = 0 then NegZero else Fin (- r))"

definition js_add :: "jsnum \<Rightarrow> jsnum \<Rightarrow> jsnum" where
  \<comment> \<open>\<^verbatim>\<open>x + y\<close> on numbers\<close>
  "js_add x y =
     (if x = NaN \<or> y = NaN then NaN
      else if is_inf x then (if is_inf y \<and> x \<noteq> y then NaN else x)
      else if is_inf y then y
      else if x = NegZero \<and> y = NegZero then NegZero
      else round_double (rat_of x + rat_of y))"

definition js_sub :: "jsnum \<Rightarrow> jsnum \<Rightarrow> jsnum" where
  \<comment> \<open>\<^verbatim>\<open>x - y\<close>\<close>
  "js_sub x y = js_add x (js_neg y)"

definition js_incr :: "jsnum \<Rightarrow> jsnum" where
  \<comment> \<open>the value that \<^verbatim>\<open>x++\<close> stores, \<^verbatim>\<open>x + 1\<close>. One more than a finite double is
      less than half a unit in the last place above the largest double, so that the sum
      is rounded to a finite double: on the doubles this is \<open>js_add x (Fin 1)\<close>.\<close>
  "js_incr x = (case x of Fin r \<Rightarrow> finite_double (r + 1) | NegZero \<Rightarrow> Fin 1 | _ \<Rightarrow> x)"

definition js_div :: "jsnum \<Rightarrow> jsnum \<Rightarrow> jsnum" where
  \<comment> \<open>\<^verbatim>\<open>x / y\<close>: a division by a zero is an infinity, or NaN for \<^verbatim>\<open>0 / 0\<close>\<close>
  "js_div x y =
     (let negative = (sign_bit x \<noteq> sign_bit y) in
      if x = NaN \<or> y = NaN then NaN
      else if is_inf x then (if is_inf y then NaN else if negative then NegInf else PosInf)
      else if is_inf y then (if negative then NegZero else Fin 0)
      else if is_zero y then (if is_zero x then NaN else if negative then NegInf else PosInf)
      else if is_zero x then (if negative then NegZero else Fin 0)
      else round_double (rat_of x / rat_of y))"

definition js_ceil :: "jsnum \<Rightarrow> jsnum" where
  \<comment> \<open>\<^verbatim>\<open>Math.ceil(x)\<close>\<close>
  "js_ceil x =
     (case x of
        Fin r \<Rightarrow> if - 1 < r \<and> r < 0 then NegZero else Fin (of_int \<lceil>r\<rceil>)
      | _ \<Rightarrow> x)"

definition js_round :: "jsnum \<Rightarrow> jsnum" where
  \<comment> \<open>\<^verbatim>\<open>Math.round(x)\<close>: the nearest integer, the greater one of two that are equally
      near\<close>
  "js_round x =
     (case x of
        Fin r \<Rightarrow> if - 1 / 2 \<le> r \<and> r < 0 then NegZero else Fin (of_int \<lfloor>r + 1 / 2\<rfloor>)
      | _ \<Rightarrow> x)"

definition js_less :: "jsnum \<Rightarrow> jsnum \<Rightarrow> bool" where
  \<comment> \<open>\<^verbatim>\<open>x < y\<close> on numbers: false when either is NaN\<close>
  "js_less x y =
     (if x = NaN \<or> y = NaN then False
      else if x = PosInf \<or> y = NegInf then False
      else if x = NegInf \<or> y = PosInf then True
      else rat_of x < rat_of y)"

definition parseInt10 :: "string \<Rightarrow> jsnum" where
  \<comment> \<open>\<^verbatim>\<open>parseInt(ds, 10)\<close> on a non-empty run of decimal digits: the double nearest to
      the integer, which is that integer up to \<open>2 ^ 53\<close> and Infinity from
      \<open>2 ^ 1024 - 2 ^ 970\<close> on\<close>
  "parseInt10 ds = round_double (of_nat (decimal_value ds))"

fun insert_sorted :: "('a \<Rightarrow> 'a \<Rightarrow> jsnum) \<Rightarrow> 'a \<Rightarrow> 'a list \<Rightarrow> 'a list" where
  \<comment> \<open>an element goes behind those that the comparator puts before it, that is, for which
      \<^verbatim>\<open>compare(x, y) > 0\<close>\<close>
  "insert_sorted compare x [] = [x]"
| "insert_sorted compare x (y # ys) =
     (if js_less (Fin 0) (compare x y) then y # insert_sorted compare x ys else x # y # ys)"

definition js_sort :: "('a \<Rightarrow> 'a \<Rightarrow> jsnum) \<Rightarrow> 'a list \<Rightarrow> 'a list" where
  \<comment> \<open>\<^verbatim>\<open>array.sort(compare)\<close>, a stable sort. Where the comparator orders the elements
      consistently, every stable sort returns the list that insertion from the right
      builds here; where it does not (a key that is NaN) the standard leaves the order to
      the implementation.\<close>
  "js_sort compare xs = foldr (insert_sorted compare) xs []"

type_synonym byte = "8 word"

subsection \<open>The browser\<close>

text \<open>
  A response carries its status and its body, read as text or as bytes; reading the body
  of a response that arrived is taken to succeed.
\<close>

record response =
  status :: nat
  resp_text :: string             \<comment> \<open>\<^verbatim>\<open>await resp.text()\<close>\<close>
  resp_bytes :: "byte list"       \<comment> \<open>\<^verbatim>\<open>await resp.arrayBuffer()\<close>\<close>

definition ok :: "response \<Rightarrow> bool" where
  \<comment> \<open>\<^verbatim>\<open>resp.ok\<close>: a status from 200 to 299\<close>
  "ok r = (200 \<le> status r \<and> status r \<le> 299)"

record template =
  initialization :: "string option"
  media :: "string option"
  startNumber :: jsnum
  timescale :: jsnum
  duration :: jsnum

text \<open>
  Of a representation the download path reads the id, the URL, the bandwidth, the two
  kind flags and the segment template; the fields that only the popup shows (width,
  height, codecs, label) are left out.
\<close>

record representation =
  rep_id :: string
  rep_url :: string
  rep_bandwidth :: jsnum
  isVideo :: bool
  isAudio :: bool
  segmentTemplate :: "template option"

record platform =
  url_href :: "string \<Rightarrow> string \<Rightarrow> string option"
    \<comment> \<open>\<^verbatim>\<open>new URL(relative, base).href\<close>, \<open>None\<close> when the constructor throws\<close>
  url_origin :: "string \<Rightarrow> string option"
    \<comment> \<open>\<^verbatim>\<open>new URL(url).origin\<close>, \<open>None\<close> when the constructor throws\<close>
  parseFloat :: "string \<Rightarrow> jsnum"
  number_string :: "jsnum \<Rightarrow> string"
    \<comment> \<open>\<^verbatim>\<open>String(num)\<close>\<close>
  fetch :: "string \<Rightarrow> (string \<times> string) list \<Rightarrow> string + response"
    \<comment> \<open>\<^verbatim>\<open>fetch(url, {headers, credentials: 'include'})\<close>: the response, or the message of
        the error the call rejects with\<close>
  cookies_getAll :: "string \<Rightarrow> (string \<times> string) list option"
    \<comment> \<open>\<^verbatim>\<open>chrome.cookies.getAll({url})\<close> as name and value pairs, \<open>None\<close> when it throws\<close>
  tab_url :: "int \<Rightarrow> string option"
    \<comment> \<open>\<^verbatim>\<open>(await chrome.tabs.get(tabId))?.url\<close>, \<open>None\<close> when the call throws or the tab
        has no URL\<close>
  aes_cbc_decrypt :: "byte list \<Rightarrow> byte list \<Rightarrow> byte list \<Rightarrow> byte list option"
    \<comment> \<open>\<^verbatim>\<open>crypto.subtle\<close>: import the raw key, decrypt the data under the IV; \<open>None\<close> when
        either step throws\<close>
  mpd_representations :: "string \<Rightarrow> string \<Rightarrow> representation list"
    \<comment> \<open>the list \<^verbatim>\<open>parseMPD\<close> builds by walking the parsed XML document, before it is
        sorted\<close>

definition resolveUrl :: "platform \<Rightarrow> string \<Rightarrow> string \<Rightarrow> string" where
  "resolveUrl p base relative =
     (case url_href p relative base of Some href \<Rightarrow> href | None \<Rightarrow> relative)"

subsection \<open>HLS parsing\<close>

record quality =
  q_url :: string
  q_bandwidth :: jsnum
  q_resolution :: "string option"
  q_height :: jsnum
  q_label :: string

definition match_bandwidth :: "string \<Rightarrow> string option" where
  \<comment> \<open>\<^verbatim>\<open>/BANDWIDTH=(\d+)/\<close> at one position: the captured digits\<close>
  "match_bandwidth s =
     (if startsWith s ''BANDWIDTH='' then
        (let ds = takeWhile is_digit (drop 10 s) in if ds = [] then None else Some ds)
      else None)"

definition match_resolution :: "string \<Rightarrow> (string \<times> string) option" where
  \<comment> \<open>\<^verbatim>\<open>/RESOLUTION=(\d+x\d+)/\<close> at one position: the digits before and after the x\<close>
  "match_resolution s =
     (if startsWith s ''RESOLUTION='' then
        (let w = takeWhile is_digit (drop 11 s); r = dropWhile is_digit (drop 11 s)
         in if w = [] \<or> \<not> startsWith r ''x'' then None
            else (let h = takeWhile is_digit (tl r) in if h = [] then None else Some (w, h)))
      else None)"

definition match_name :: "string \<Rightarrow> string option" where
  \<comment> \<open>\<^verbatim>\<open>/NAME="([^"]+)"/\<close> at one position\<close>
  "match_name s =
     (if startsWith s (''NAME='' @ [CHR 0x22]) then
        (let n = takeWhile (\<lambda>c. c \<noteq> CHR 0x22) (drop 6 s);
             r = dropWhile (\<lambda>c. c \<noteq> CHR 0x22) (drop 6 s)
         in if n = [] \<or> r = [] then None else Some n)
      else None)"

definition stream_inf :: "platform \<Rightarrow> string \<Rightarrow> string \<Rightarrow> string \<Rightarrow> quality" where
  \<comment> \<open>the object pushed for one \<^verbatim>\<open>#EXT-X-STREAM-INF:\<close> line with its URL line. The
      expression is not anchored: the digits are those after the first \<^verbatim>\<open>BANDWIDTH=\<close>
      that digits follow, also where the text is the end of \<^verbatim>\<open>AVERAGE-BANDWIDTH=\<close>.\<close>
  "stream_inf p baseUrl line urlLine =
     (let attrs = drop (length ''#EXT-X-STREAM-INF:'') line;
          bwMatch = regex_scan match_bandwidth attrs;
          resMatch = regex_scan match_resolution attrs;
          nameMatch = regex_scan match_name attrs;
          bandwidth = (case bwMatch of Some ds \<Rightarrow> parseInt10 ds | None \<Rightarrow> Fin 0);
          height = (case resMatch of Some (w, h) \<Rightarrow> parseInt10 h | None \<Rightarrow> Fin 0)
      in \<lparr>q_url = resolveUrl p baseUrl urlLine,
          q_bandwidth = bandwidth,
          q_resolution = (case resMatch of Some (w, h) \<Rightarrow> Some (w @ ''x'' @ h) | None \<Rightarrow> None),
          q_height = height,
          q_label = (case nameMatch of
                       Some n \<Rightarrow> n
                     | None \<Rightarrow>
                         if number_truthy height then number_string p height @ ''p''
                         else number_string p (js_round (js_div bandwidth (Fin 1000))) @ ''kbps'')\<rparr>)"

fun master_loop :: "platform \<Rightarrow> string \<Rightarrow> string list \<Rightarrow> quality list" where
  \<comment> \<open>the loop over the lines; the URL line of a stream is the next line that is neither
      empty nor a comment\<close>
  "master_loop p baseUrl [] = []"
| "master_loop p baseUrl (line # rest) =
     (if startsWith line ''#EXT-X-STREAM-INF:'' then
        (case find (\<lambda>l. l \<noteq> [] \<and> \<not> startsWith l ''#'') rest of
           None \<Rightarrow> master_loop p baseUrl rest
         | Some urlLine \<Rightarrow> stream_inf p baseUrl line urlLine # master_loop p baseUrl rest)
      else master_loop p baseUrl rest)"

definition parseM3U8Master :: "platform \<Rightarrow> string \<Rightarrow> string \<Rightarrow> quality list" where
  \<comment> \<open>the loop, then \<^verbatim>\<open>qualities.sort((a, b) => b.bandwidth - a.bandwidth)\<close>\<close>
  "parseM3U8Master p content baseUrl =
     js_sort (\<lambda>a b. js_sub (q_bandwidth b) (q_bandwidth a))
       (master_loop p baseUrl (map js_trim (js_split CHR 0x0A content)))"

record segment =
  seg_url :: string
  seg_duration :: jsnum

definition extinf_field :: "string \<Rightarrow> string" where
  \<comment> \<open>\<^verbatim>\<open>line.split(':')[1]\<close>, which \<^verbatim>\<open>parseFloat\<close> turns into the string
      \<^verbatim>\<open>undefined\<close> when the line has no colon\<close>
  "extinf_field line =
     (case js_split CHR '':'' line of a # d # rest \<Rightarrow> d | _ \<Rightarrow> ''undefined'')"

fun segments_loop :: "platform \<Rightarrow> string \<Rightarrow> jsnum \<Rightarrow> string list \<Rightarrow> segment list" where
  "segments_loop p baseUrl currentDuration [] = []"
| "segments_loop p baseUrl currentDuration (line # rest) =
     (if startsWith line ''#EXTINF:'' then
        segments_loop p baseUrl (parseFloat p (extinf_field line)) rest
      else if line \<noteq> [] \<and> \<not> startsWith line ''#'' then
        \<lparr>seg_url = resolveUrl p baseUrl line, seg_duration = currentDuration\<rparr>
          # segments_loop p baseUrl (Fin 0) rest
      else segments_loop p baseUrl currentDuration rest)"

definition parseM3U8Segments :: "platform \<Rightarrow> string \<Rightarrow> string \<Rightarrow> segment list" where
  "parseM3U8Segments p content baseUrl =
     segments_loop p baseUrl (Fin 0) (map js_trim (js_split CHR 0x0A content))"

subsection \<open>Captured request headers\<close>

text \<open>
  The worker keeps, for every tab, the credentials it saw on the tab's own requests
  (\<^verbatim>\<open>tabRequestHeaders\<close>, a Map from the tab id to an object). A property that the object
  lacks is \<open>None\<close>; \<open>custom\<close> is the nested object of forwarded headers in insertion order.
\<close>

record auth_ctx =
  cookie :: "string option"
  authorization :: "string option"
  referer :: "string option"
  origin :: "string option"
  custom :: "(string \<times> string) list option"

type_synonym header_store = "int \<Rightarrow> auth_ctx option"

definition empty_ctx :: auth_ctx where
  \<comment> \<open>the object \<^verbatim>\<open>{}\<close>\<close>
  "empty_ctx = \<lparr>cookie = None, authorization = None, referer = None, origin = None, custom = None\<rparr>"

definition truthy :: "string option \<Rightarrow> bool" where
  \<comment> \<open>a property holding a string is truthy when it is present and not empty\<close>
  "truthy v = (case v of None \<Rightarrow> False | Some s \<Rightarrow> s \<noteq> [])"

record http_header =
  h_name :: string
  h_value :: string

record request_details =
  tabId :: int
  req_url :: string
  requestHeaders :: "http_header list option"

definition match_ext :: "string list \<Rightarrow> string \<Rightarrow> unit option" where
  \<comment> \<open>\<^verbatim>\<open>/\.(e1|e2|...)(\?|$)/i\<close> at one position\<close>
  "match_ext exts s =
     (case s of
        [] \<Rightarrow> None
      | c # r \<Rightarrow>
          if c = CHR ''.'' \<and>
             list_ex (\<lambda>e. map to_lower (take (length e) r) = e \<and>
                          (drop (length e) r = [] \<or> startsWith (drop (length e) r) ''?'')) exts
          then Some () else None)"

definition ext_test :: "string list \<Rightarrow> string \<Rightarrow> bool" where
  "ext_test exts url = (regex_scan (match_ext exts) url \<noteq> None)"

definition HLS_PATTERNS :: "string \<Rightarrow> bool" where
  "HLS_PATTERNS = ext_test [''m3u8'', ''m3u'']"

definition DASH_PATTERNS :: "string \<Rightarrow> bool" where
  "DASH_PATTERNS = ext_test [''mpd'']"

definition VIDEO_EXTENSIONS :: "string \<Rightarrow> bool" where
  "VIDEO_EXTENSIONS =
     ext_test [''mp4'', ''webm'', ''mkv'', ''avi'', ''mov'', ''flv'', ''wmv'', ''m4v'', ''3gp'', ''ogv'', ''ts'']"

definition isStream :: "string \<Rightarrow> bool" where
  "isStream url =
     (HLS_PATTERNS url \<or> DASH_PATTERNS url \<or> VIDEO_EXTENSIONS url \<or>
      ext_test [''ts'', ''fmp4'', ''m4s'', ''m4f'', ''m4v'', ''mp4'', ''cmfv'', ''cmfa''] url)"

definition capture_header :: "auth_ctx \<Rightarrow> http_header \<Rightarrow> auth_ctx" where
  \<comment> \<open>the body of the loop over \<^verbatim>\<open>details.requestHeaders\<close>; a header name is compared
      in lower case, a custom header is stored under the name as sent\<close>
  "capture_header captured h =
     (let name = map to_lower (h_name h);
          c1 = (if name = ''cookie'' then captured\<lparr>cookie := Some (h_value h)\<rparr> else captured);
          c2 = (if name = ''authorization'' then c1\<lparr>authorization := Some (h_value h)\<rparr> else c1);
          c3 = (if name = ''referer'' then c2\<lparr>referer := Some (h_value h)\<rparr> else c2);
          c4 = (if name = ''origin'' then c3\<lparr>origin := Some (h_value h)\<rparr> else c3)
      in if startsWith name ''x-'' \<or> name = ''range'' then
           c4\<lparr>custom := Some (AList.update (h_name h) (h_value h)
                                (case custom c4 of None \<Rightarrow> [] | Some al \<Rightarrow> al))\<rparr>
         else c4)"

definition spread :: "auth_ctx \<Rightarrow> auth_ctx \<Rightarrow> auth_ctx" where
  \<comment> \<open>\<^verbatim>\<open>{ ...existing, ...captured }\<close>: every property that \<open>captured\<close> has replaces
      the property of \<open>existing\<close>\<close>
  "spread existing captured =
     \<lparr>cookie = (case cookie captured of Some v \<Rightarrow> Some v | None \<Rightarrow> cookie existing),
      authorization =
        (case authorization captured of Some v \<Rightarrow> Some v | None \<Rightarrow> authorization existing),
      referer = (case referer captured of Some v \<Rightarrow> Some v | None \<Rightarrow> referer existing),
      origin = (case origin captured of Some v \<Rightarrow> Some v | None \<Rightarrow> origin existing),
      custom = (case custom captured of Some v \<Rightarrow> Some v | None \<Rightarrow> custom existing)\<rparr>"

definition stored_ctx :: "header_store \<Rightarrow> int \<Rightarrow> auth_ctx" where
  \<comment> \<open>\<^verbatim>\<open>tabRequestHeaders.get(tabId) || {}\<close>\<close>
  "stored_ctx store tab = (case store tab of Some c \<Rightarrow> c | None \<Rightarrow> empty_ctx)"

definition onBeforeSendHeaders :: "platform \<Rightarrow> header_store \<Rightarrow> request_details \<Rightarrow> header_store" where
  \<comment> \<open>the listener of \<^verbatim>\<open>chrome.webRequest.onBeforeSendHeaders\<close>\<close>
  "onBeforeSendHeaders p store details =
     (if tabId details < 0 then store
      else if \<not> isStream (req_url details) then store
      else
        (let captured = (case requestHeaders details of
                           None \<Rightarrow> empty_ctx
                         | Some hs \<Rightarrow> foldl capture_header empty_ctx hs);
             captured' = (if \<not> truthy (referer captured) then
                            (case url_origin p (req_url details) of
                               Some org \<Rightarrow> captured\<lparr>referer := Some (org @ ''/'')\<rparr>
                             | None \<Rightarrow> captured)
                          else captured);
             existing = stored_ctx store (tabId details)
         in store(tabId details \<mapsto> spread existing captured')))"

definition buildAuthHeaders :: "header_store \<Rightarrow> int \<Rightarrow> (string \<times> string) list" where
  "buildAuthHeaders store tab =
     (let captured = stored_ctx store tab;
          h1 = (if truthy (cookie captured) then [(''Cookie'', the (cookie captured))] else []);
          h2 = (if truthy (authorization captured)
                then AList.update ''Authorization'' (the (authorization captured)) h1 else h1);
          h3 = (if truthy (referer captured)
                then AList.update ''Referer'' (the (referer captured)) h2 else h2);
          h4 = (if truthy (origin captured)
                then AList.update ''Origin'' (the (origin captured)) h3 else h3)
      in case custom captured of
           None \<Rightarrow> h4
         | Some al \<Rightarrow>
             foldl (\<lambda>hs (name, v). if map to_lower name \<noteq> ''range'' then AList.update name v hs else hs)
               h4 al)"

definition authenticatedFetch :: "platform \<Rightarrow> header_store \<Rightarrow> string \<Rightarrow> int \<Rightarrow> string + response" where
  \<comment> \<open>one request with the captured headers; a 401 or 403, or a rejected request, is tried
      once more without them when there were any\<close>
  "authenticatedFetch p store url tab =
     (let authHeaders = buildAuthHeaders store tab;
          hasAuth = (authHeaders \<noteq> [])
      in case fetch p url authHeaders of
           Inr resp \<Rightarrow>
             if ok resp then Inr resp
             else if hasAuth \<and> (status resp = 403 \<or> status resp = 401) then fetch p url []
             else Inr resp
         | Inl err \<Rightarrow> if hasAuth then fetch p url [] else Inl err)"

fun cookie_string :: "(string \<times> string) list \<Rightarrow> string" where
  \<comment> \<open>\<^verbatim>\<open>cookies.map(c => `${c.name}=${c.value}`).join('; ')\<close>\<close>
  "cookie_string [] = []"
| "cookie_string [(n, v)] = n @ ''='' @ v"
| "cookie_string ((n, v) # c # cs) = n @ ''='' @ v @ ''; '' @ cookie_string (c # cs)"

definition getCookiesForUrl :: "platform \<Rightarrow> string \<Rightarrow> string option" where
  "getCookiesForUrl p url =
     (case cookies_getAll p url of
        None \<Rightarrow> None
      | Some cookies \<Rightarrow> if cookies = [] then None else Some (cookie_string cookies))"

definition ensureAuthHeaders :: "platform \<Rightarrow> header_store \<Rightarrow> int \<Rightarrow> string \<Rightarrow> header_store" where
  "ensureAuthHeaders p store tab url =
     (let existing = store tab in
      if (case existing of Some e \<Rightarrow> truthy (cookie e) | None \<Rightarrow> False) then store
      else
        (let cookieStr = getCookiesForUrl p url;
             store1 = (if truthy cookieStr
                       then store(tab \<mapsto> (stored_ctx store tab)\<lparr>cookie := cookieStr\<rparr>) else store)
         in if \<not> (case existing of Some e \<Rightarrow> truthy (referer e) | None \<Rightarrow> False) then
              (if truthy (tab_url p tab)
               then store1(tab \<mapsto> (stored_ctx store1 tab)\<lparr>referer := tab_url p tab\<rparr>) else store1)
            else store1))"

subsection \<open>Download results\<close>

text \<open>
  A download either hands a file to \<^verbatim>\<open>chrome.downloads.download\<close> and answers
  \<^verbatim>\<open>{ ok: true, ... }\<close>, or answers \<^verbatim>\<open>{ error: message }\<close>. An exception that reaches
  \<^verbatim>\<open>messageHandlers.downloadVideo\<close> is caught there and answered as its message, so a
  thrown error and a returned one are the same kind of value. The messages are:
  \<^item> \<open>NoVideoSpecified\<close>: No video specified
  \<^item> \<open>ManifestFetchFailed s\<close>: Failed to fetch manifest: HTTP s
  \<^item> \<open>QualityNotFound\<close>: Quality not found
  \<^item> \<open>MediaPlaylistFetchFailed s\<close>: Failed to fetch media playlist: HTTP s
  \<^item> \<open>NoSegmentsFound\<close>: No segments found
  \<^item> \<open>TooManySegmentFailures s\<close>: Too many segment failures (s), thrown
  \<^item> \<open>NoSegmentsDownloaded\<close>: No segments downloaded - authentication may have expired
  \<^item> \<open>MPDFetchFailed s\<close>: Failed to fetch MPD: HTTP s
  \<^item> \<open>NoRepresentationsFound\<close>: No representations found in DASH manifest
  \<^item> \<open>CouldNotResolveDASH\<close>: Could not resolve DASH segments
  \<^item> \<open>NoSegmentTemplate\<close>: No segment template
  \<^item> \<open>NoDASHSegmentsDownloaded\<close>: No DASH segments downloaded
  \<^item> \<open>Thrown m\<close>: the message of an error that a platform call threw.

  The id that \<^verbatim>\<open>chrome.downloads.download\<close> returns and the progress messages are left out;
  the browser is taken to accept the download it is handed.
\<close>

datatype dl_error =
    NoVideoSpecified
  | ManifestFetchFailed nat
  | QualityNotFound
  | MediaPlaylistFetchFailed nat
  | NoSegmentsFound
  | TooManySegmentFailures nat
  | NoSegmentsDownloaded
  | MPDFetchFailed nat
  | NoRepresentationsFound
  | CouldNotResolveDASH
  | NoSegmentTemplate
  | NoDASHSegmentsDownloaded
  | Thrown string

datatype source =
    Url string                      \<comment> \<open>a remote URL\<close>
  | Blob "byte list list" string    \<comment> \<open>\<^verbatim>\<open>new Blob(chunks, { type })\<close>\<close>

record download =
  dl_source :: source
  dl_filename :: string
  segmentCount :: "nat option"

definition blob_bytes :: "byte list list \<Rightarrow> byte list" where
  \<comment> \<open>the content of a blob: its parts one after the other\<close>
  "blob_bytes chunks = concat chunks"

record video =
  v_url :: string
  v_type :: string
  v_filename :: "string option"
  selectedQuality :: "string option"

definition filename_or :: "video \<Rightarrow> string \<Rightarrow> string" where
  \<comment> \<open>\<^verbatim>\<open>video.filename || dflt\<close>\<close>
  "filename_or v dflt = (if truthy (v_filename v) then the (v_filename v) else dflt)"

definition batchSize :: "nat \<Rightarrow> nat" where
  \<comment> \<open>\<^verbatim>\<open>settings.maxConcurrentDownloads || 3\<close>; the setting is a natural number here,
      \<open>0\<close> standing for every falsy value\<close>
  "batchSize maxConcurrentDownloads =
     (if maxConcurrentDownloads = 0 then 3 else maxConcurrentDownloads)"

definition downloadDirect :: "video \<Rightarrow> dl_error + download" where
  "downloadDirect v =
     Inr \<lparr>dl_source = Url (v_url v),
          dl_filename = sanitizeFilename (filename_or v ''video.mp4''),
          segmentCount = None\<rparr>"

subsection \<open>HLS decryption\<close>

record keyInfo =
  key_uri :: string
  key_iv :: "string option"

definition is_hex :: "char \<Rightarrow> bool" where
  "is_hex c = (c \<in> set ''0123456789abcdefABCDEF'')"

definition hex_val :: "char \<Rightarrow> nat" where
  "hex_val c =
     (case map_of (zip ''0123456789abcdefABCDEF''
                       [0, 1, 2, 3, 4, 5, 6, 7, 8, 9, 10, 11, 12, 13, 14, 15, 10, 11, 12, 13, 14, 15]) c of
        Some n \<Rightarrow> n
      | None \<Rightarrow> 0)"

definition match_key :: "string \<Rightarrow> (string \<times> string option) option" where
  \<comment> \<open>\<^verbatim>\<open>/#EXT-X-KEY:METHOD=AES-128,URI="([^"]+)"(?:,IV=0x([0-9a-fA-F]+))?/\<close> at one
      position\<close>
  "match_key s =
     (let pre = ''#EXT-X-KEY:METHOD=AES-128,URI='' @ [CHR 0x22] in
      if startsWith s pre then
        (let u = takeWhile (\<lambda>c. c \<noteq> CHR 0x22) (drop (length pre) s);
             r = dropWhile (\<lambda>c. c \<noteq> CHR 0x22) (drop (length pre) s)
         in if u = [] \<or> r = [] then None
            else if startsWith (tl r) '',IV=0x'' \<and> takeWhile is_hex (drop 6 (tl r)) \<noteq> []
            then Some (u, Some (takeWhile is_hex (drop 6 (tl r))))
            else Some (u, None))
      else None)"

definition parseM3U8Key :: "platform \<Rightarrow> string \<Rightarrow> string \<Rightarrow> keyInfo option" where
  "parseM3U8Key p content baseUrl =
     (case regex_scan match_key content of
        None \<Rightarrow> None
      | Some (u, iv) \<Rightarrow> Some \<lparr>key_uri = resolveUrl p baseUrl u, key_iv = iv\<rparr>)"

fun hex_pairs :: "string \<Rightarrow> byte list" where
  \<comment> \<open>\<^verbatim>\<open>ivHex.match(/.{2}/g).map(b => parseInt(b, 16))\<close> on a string of two or more hex
      digits\<close>
  "hex_pairs (a # b # r) = of_nat (16 * hex_val a + hex_val b) # hex_pairs r"
| "hex_pairs r = []"

definition index_iv :: "nat \<Rightarrow> byte list" where
  \<comment> \<open>sixteen bytes, the last four the big-endian segment index\<close>
  "index_iv segmentIndex =
     (let w = (of_nat segmentIndex :: 32 word) in
      replicate 12 0 @ [ucast (drop_bit 24 w), ucast (drop_bit 16 w), ucast (drop_bit 8 w), ucast w])"

definition decryptSegment :: "platform \<Rightarrow> byte list \<Rightarrow> byte list \<Rightarrow> string option \<Rightarrow> nat \<Rightarrow> byte list" where
  \<comment> \<open>whatever throws inside the \<^verbatim>\<open>try\<close> (a one-digit IV included, for which
      \<^verbatim>\<open>match\<close> answers null) returns the data as received\<close>
  "decryptSegment p encryptedData keyBuffer ivHex segmentIndex =
     (if truthy ivHex \<and> length (the ivHex) < 2 then encryptedData
      else
        (let iv = (if truthy ivHex then hex_pairs (the ivHex) else index_iv segmentIndex)
         in case aes_cbc_decrypt p keyBuffer iv encryptedData of
              Some decrypted \<Rightarrow> decrypted
            | None \<Rightarrow> encryptedData))"

subsection \<open>The HLS segment loop\<close>

text \<open>
  \<^verbatim>\<open>Promise.all(batch.map(async (seg) => ...))\<close> starts one request for every segment of
  the batch. The code after \<^verbatim>\<open>await authenticatedFetch\<close> runs when the request completes,
  so the order in which the callbacks touch \<^verbatim>\<open>failureCount\<close> is the completion order of
  the requests. A schedule gives that order for the batch that starts at index \<open>i\<close>, as a
  list of positions in the batch. The value of a callback is stored at the position of
  its segment; the first callback that throws rejects the whole \<^verbatim>\<open>Promise.all\<close>.
\<close>

type_synonym schedule = "nat \<Rightarrow> nat list"

fun settle :: "(nat \<Rightarrow> 's \<Rightarrow> (dl_error + 'r) \<times> 's) \<Rightarrow> nat list \<Rightarrow> 'r option list \<Rightarrow> 's \<Rightarrow>
               (dl_error + 'r option list) \<times> 's" where
  "settle callback [] results st = (Inr results, st)"
| "settle callback (j # js) results st =
     (case callback j st of
        (Inl e, st') \<Rightarrow> (Inl e, st')
      | (Inr r, st') \<Rightarrow> settle callback js (results[j := Some r]) st')"

definition hls_callback ::
  "platform \<Rightarrow> header_store \<Rightarrow> int \<Rightarrow> byte list option \<Rightarrow> keyInfo option \<Rightarrow> segment list \<Rightarrow> nat \<Rightarrow>
   nat \<Rightarrow> nat \<Rightarrow> (dl_error + byte list option) \<times> nat" where
  \<comment> \<open>the callback for the segment at position \<open>j\<close> of the batch that starts at \<open>i\<close>, from
      the completion of its request on; \<open>Inr None\<close> is the \<^verbatim>\<open>null\<close> of a skipped segment.
      The segments are distinct objects, so \<^verbatim>\<open>batch.indexOf(seg)\<close> is \<open>j\<close>.\<close>
  "hls_callback p store tab decryptionKey keyInfo batch i j failureCount =
     (case authenticatedFetch p store (seg_url (batch ! j)) tab of
        Inl err \<Rightarrow> (Inl (Thrown err), failureCount)
      | Inr resp \<Rightarrow>
          if \<not> ok resp then
            (if failureCount + 1 > 5 then (Inl (TooManySegmentFailures (status resp)), failureCount + 1)
             else (Inr None, failureCount + 1))
          else
            (case (decryptionKey, keyInfo) of
               (Some k, Some ki) \<Rightarrow>
                 (Inr (Some (decryptSegment p (resp_bytes resp) k (key_iv ki) (i + j))), failureCount)
             | _ \<Rightarrow> (Inr (Some (resp_bytes resp)), failureCount)))"

definition filter_Boolean :: "byte list option option list \<Rightarrow> byte list list" where
  \<comment> \<open>\<^verbatim>\<open>results.filter(Boolean)\<close>: the buffers, without the nulls\<close>
  "filter_Boolean results = concat (map (\<lambda>r. case r of Some (Some d) \<Rightarrow> [d] | _ \<Rightarrow> []) results)"

function hls_loop ::
  "platform \<Rightarrow> header_store \<Rightarrow> int \<Rightarrow> byte list option \<Rightarrow> keyInfo option \<Rightarrow> schedule \<Rightarrow> nat \<Rightarrow>
   segment list \<Rightarrow> nat \<Rightarrow> byte list list \<Rightarrow> nat \<Rightarrow> dl_error + byte list list" where
  "hls_loop p store tab decryptionKey keyInfo sched mcd segments i chunks failureCount =
     (if i < length segments then
        (let batch = take (batchSize mcd) (drop i segments) in
         case settle (hls_callback p store tab decryptionKey keyInfo batch i) (sched i)
                (replicate (length batch) None) failureCount of
           (Inl e, fc) \<Rightarrow> Inl e
         | (Inr results, fc) \<Rightarrow>
             hls_loop p store tab decryptionKey keyInfo sched mcd segments (i + batchSize mcd)
               (chunks @ filter_Boolean results) fc)
      else Inr chunks)"
  by pat_completeness auto
termination
  by (relation "measure (\<lambda>(p, store, tab, k, ki, sched, mcd, segments, i, chunks, fc). length segments - i)")
     (auto simp: batchSize_def)

declare hls_loop.simps [simp del]

definition fetch_key :: "platform \<Rightarrow> header_store \<Rightarrow> int \<Rightarrow> keyInfo option \<Rightarrow> byte list option" where
  \<comment> \<open>\<^verbatim>\<open>decryptionKey\<close>: the body of the key response when the playlist names a key and
      the key request is answered ok, \<^verbatim>\<open>null\<close> otherwise\<close>
  "fetch_key p store tab keyInfo =
     (case keyInfo of
        None \<Rightarrow> None
      | Some ki \<Rightarrow>
          if key_uri ki = [] then None
          else (case authenticatedFetch p store (key_uri ki) tab of
                  Inr keyResp \<Rightarrow> if ok keyResp then Some (resp_bytes keyResp) else None
                | Inl err \<Rightarrow> None))"

definition downloadHLSSegments ::
  "platform \<Rightarrow> header_store \<Rightarrow> nat \<Rightarrow> schedule \<Rightarrow> string \<Rightarrow> string \<Rightarrow> video \<Rightarrow> int \<Rightarrow> dl_error + download" where
  "downloadHLSSegments p store mcd sched content baseUrl v tab =
     (let segments = parseM3U8Segments p content baseUrl in
      if segments = [] then Inl NoSegmentsFound
      else
        (let keyInfo = parseM3U8Key p content baseUrl;
             decryptionKey = fetch_key p store tab keyInfo
         in case hls_loop p store tab decryptionKey keyInfo sched mcd segments 0 [] 0 of
              Inl e \<Rightarrow> Inl e
            | Inr chunks \<Rightarrow>
                if chunks = [] then Inl NoSegmentsDownloaded
                else Inr \<lparr>dl_source = Blob chunks ''video/mp2t'',
                          dl_filename =
                            sanitizeFilename
                              (strip_ext [''m3u8'', ''m3u'', ''ts''] (filename_or v ''video'') @ ''.ts''),
                          segmentCount = Some (length segments)\<rparr>))"

definition downloadHLS ::
  "platform \<Rightarrow> header_store \<Rightarrow> nat \<Rightarrow> schedule \<Rightarrow> video \<Rightarrow> int \<Rightarrow> dl_error + download" where
  "downloadHLS p store0 mcd sched v tab =
     (let store = ensureAuthHeaders p store0 tab (v_url v) in
      case authenticatedFetch p store (v_url v) tab of
        Inl err \<Rightarrow> Inl (Thrown err)
      | Inr response \<Rightarrow>
          if \<not> ok response then Inl (ManifestFetchFailed (status response))
          else
            (let content = resp_text response;
                 qualities = parseM3U8Master p content (v_url v)
             in if qualities \<noteq> [] then
                  (case (if truthy (selectedQuality v)
                         then find (\<lambda>q. q_url q = the (selectedQuality v)) qualities
                         else Some (hd qualities)) of
                     None \<Rightarrow> Inl QualityNotFound
                   | Some selected \<Rightarrow>
                       (case authenticatedFetch p store (q_url selected) tab of
                          Inl err \<Rightarrow> Inl (Thrown err)
                        | Inr mediaResp \<Rightarrow>
                            if \<not> ok mediaResp
                            then Inl (MediaPlaylistFetchFailed (status mediaResp))
                            else downloadHLSSegments p store mcd sched (resp_text mediaResp)
                                   (q_url selected) v tab))
                else downloadHLSSegments p store mcd sched content (v_url v) v tab))"

subsection \<open>String replacement\<close>

fun split_at_first :: "string \<Rightarrow> string \<Rightarrow> (string \<times> string) option" where
  \<comment> \<open>the text before and after the first occurrence of the pattern\<close>
  "split_at_first pat [] = (if pat = [] then Some ([], []) else None)"
| "split_at_first pat (c # cs) =
     (if startsWith (c # cs) pat then Some ([], drop (length pat) (c # cs))
      else map_option (\<lambda>(pre, post). (c # pre, post)) (split_at_first pat cs))"

fun substitution :: "string \<Rightarrow> string \<Rightarrow> string \<Rightarrow> string \<Rightarrow> string" where
  \<comment> \<open>the replacement text with its dollar patterns expanded: two dollars, dollar
      ampersand, dollar backquote and dollar quote\<close>
  "substitution m pre post (c # d # r) =
     (if c = CHR ''$'' \<and> d = CHR ''$'' then CHR ''$'' # substitution m pre post r
      else if c = CHR ''$'' \<and> d = CHR ''&'' then m @ substitution m pre post r
      else if c = CHR ''$'' \<and> d = CHR 0x60 then pre @ substitution m pre post r
      else if c = CHR ''$'' \<and> d = CHR 0x27 then post @ substitution m pre post r
      else c # substitution m pre post (d # r))"
| "substitution m pre post r = r"

definition js_replace :: "string \<Rightarrow> string \<Rightarrow> string \<Rightarrow> string" where
  \<comment> \<open>\<^verbatim>\<open>s.replace(pat, repl)\<close> with a string pattern: the first occurrence only\<close>
  "js_replace s pat repl =
     (case split_at_first pat s of
        None \<Rightarrow> s
      | Some (pre, post) \<Rightarrow> pre @ substitution pat pre post repl @ post)"

subsection \<open>DASH\<close>

definition parseMPD :: "platform \<Rightarrow> string \<Rightarrow> string \<Rightarrow> representation list" where
  \<comment> \<open>the walk over the document is the platform's; the sort is the worker's:
      \<^verbatim>\<open>qualities.sort((a, b) => b.bandwidth - a.bandwidth)\<close>\<close>
  "parseMPD p content baseUrl =
     js_sort (\<lambda>a b. js_sub (rep_bandwidth b) (rep_bandwidth a)) (mpd_representations p content baseUrl)"

definition segment_url :: "platform \<Rightarrow> string \<Rightarrow> string \<Rightarrow> string \<Rightarrow> jsnum \<Rightarrow> string" where
  \<comment> \<open>the URL pushed for one number, resolved against \<^verbatim>\<open>video.url\<close>\<close>
  "segment_url p video_url tmpl_media rid num =
     resolveUrl p video_url
       (js_replace (js_replace tmpl_media ''$Number$'' (number_string p num)) ''$RepresentationID$'' rid)"

partial_function (option) generate_urls ::
  "platform \<Rightarrow> string \<Rightarrow> string \<Rightarrow> string \<Rightarrow> jsnum \<Rightarrow> jsnum \<Rightarrow> string list \<Rightarrow> jsnum \<Rightarrow> string list option"
where
  \<comment> \<open>\<^verbatim>\<open>for (let num = start; num < start + maxSegments; num++) segments.push(...)\<close>,
      entered with \<open>num = start\<close>; \<open>None\<close> when the loop never ends\<close>
  "generate_urls p video_url tmpl_media rid start maxSegments segments num =
     (if js_less num (js_add start maxSegments)
      then generate_urls p video_url tmpl_media rid start maxSegments
             (segments @ [segment_url p video_url tmpl_media rid num]) (js_incr num)
      else Some segments)"

definition dash_batch :: "platform \<Rightarrow> header_store \<Rightarrow> int \<Rightarrow> string list \<Rightarrow> byte list list option" where
  \<comment> \<open>\<^verbatim>\<open>await Promise.all(batch.map(...))\<close> inside the \<^verbatim>\<open>try\<close>: the buffers in the
      order of the batch, or \<open>None\<close> when a callback throws (a rejected request or a
      response that is not ok). The callbacks share no state and the error is dropped,
      so the completion order of the requests does not show.\<close>
  "dash_batch p store tab batch =
     those (map (\<lambda>url. case authenticatedFetch p store url tab of
                          Inl err \<Rightarrow> None
                        | Inr resp \<Rightarrow> if ok resp then Some (resp_bytes resp) else None) batch)"

function dash_loop ::
  "platform \<Rightarrow> header_store \<Rightarrow> int \<Rightarrow> nat \<Rightarrow> string list \<Rightarrow> nat \<Rightarrow> byte list list \<Rightarrow> byte list list" where
  "dash_loop p store tab mcd segments i chunks =
     (if i < length segments then
        (case dash_batch p store tab (take (batchSize mcd) (drop i segments)) of
           Some results \<Rightarrow> dash_loop p store tab mcd segments (i + batchSize mcd) (chunks @ results)
         | None \<Rightarrow> chunks)
      else chunks)"
  by pat_completeness auto
termination
  by (relation "measure (\<lambda>(p, store, tab, mcd, segments, i, chunks). length segments - i)")
     (auto simp: batchSize_def)

declare dash_loop.simps [simp del]

definition init_chunks ::
  "platform \<Rightarrow> header_store \<Rightarrow> int \<Rightarrow> video \<Rightarrow> representation \<Rightarrow> template \<Rightarrow> byte list list" where
  \<comment> \<open>\<^verbatim>\<open>chunks\<close> before the loop: the initialization segment when the template names one
      and its request is answered ok\<close>
  "init_chunks p store tab v rep tmpl =
     (if truthy (initialization tmpl) then
        (case authenticatedFetch p store
                (resolveUrl p (v_url v)
                   (js_replace (the (initialization tmpl)) ''$RepresentationID$'' (rep_id rep))) tab of
           Inr resp \<Rightarrow> if ok resp then [resp_bytes resp] else []
         | Inl err \<Rightarrow> [])
      else [])"

definition downloadDASHSegments ::
  "platform \<Rightarrow> header_store \<Rightarrow> nat \<Rightarrow> representation \<Rightarrow> video \<Rightarrow> int \<Rightarrow> (dl_error + download) option" where
  \<comment> \<open>\<open>None\<close>: the call never returns\<close>
  "downloadDASHSegments p store mcd rep v tab =
     (case segmentTemplate rep of
        None \<Rightarrow> Some (Inl NoSegmentTemplate)
      | Some tmpl \<Rightarrow>
          if \<not> truthy (media tmpl) then Some (Inl NoSegmentTemplate)
          else
            (let segmentDuration = js_div (duration tmpl) (timescale tmpl);
                 maxSegments = js_ceil (js_div (Fin 7200) segmentDuration)
             in case generate_urls p (v_url v) (the (media tmpl)) (rep_id rep) (startNumber tmpl)
                       maxSegments [] (startNumber tmpl) of
                  None \<Rightarrow> None
                | Some segments \<Rightarrow>
                    (let chunks = dash_loop p store tab mcd segments 0
                                    (init_chunks p store tab v rep tmpl)
                     in if chunks = [] then Some (Inl NoDASHSegmentsDownloaded)
                        else Some (Inr \<lparr>dl_source = Blob chunks ''video/mp4'',
                                        dl_filename =
                                          sanitizeFilename
                                            (strip_ext [''mpd'', ''mp4''] (filename_or v ''video'') @ ''.mp4''),
                                        segmentCount = Some (length chunks)\<rparr>))))"

definition downloadDASH ::
  "platform \<Rightarrow> header_store \<Rightarrow> nat \<Rightarrow> video \<Rightarrow> int \<Rightarrow> (dl_error + download) option" where
  "downloadDASH p store0 mcd v tab =
     (let store = ensureAuthHeaders p store0 tab (v_url v) in
      case authenticatedFetch p store (v_url v) tab of
        Inl err \<Rightarrow> Some (Inl (Thrown err))
      | Inr response \<Rightarrow>
          if \<not> ok response then Some (Inl (MPDFetchFailed (status response)))
          else
            (let qualities = parseMPD p (resp_text response) (v_url v);
                 selected = (if truthy (selectedQuality v)
                             then find (\<lambda>q. rep_url q = the (selectedQuality v) \<or>
                                             rep_id q = the (selectedQuality v)) qualities
                             else None);
                 best = (case find (\<lambda>q. isVideo q \<and> rep_url q \<noteq> [] \<and> rep_url q \<noteq> v_url v) qualities of
                           Some q \<Rightarrow> q
                         | None \<Rightarrow> hd qualities)
             in if qualities = [] then Some (Inl NoRepresentationsFound)
                else if (case selected of
                           Some q \<Rightarrow> rep_url q \<noteq> [] \<and> rep_url q \<noteq> v_url v
                         | None \<Rightarrow> False)
                then Some (downloadDirect (v\<lparr>v_url := rep_url (the selected)\<rparr>))
                else if (case selected of Some q \<Rightarrow> segmentTemplate q \<noteq> None | None \<Rightarrow> False)
                then downloadDASHSegments p store mcd (the selected) v tab
                else if rep_url best \<noteq> [] \<and> rep_url best \<noteq> v_url v
                then Some (downloadDirect (v\<lparr>v_url := rep_url best\<rparr>))
                else if segmentTemplate best \<noteq> None
                then downloadDASHSegments p store mcd best v tab
                else Some (Inl CouldNotResolveDASH)))"

subsection \<open>The message handler\<close>

definition downloadVideo ::
  "platform \<Rightarrow> header_store \<Rightarrow> nat \<Rightarrow> schedule \<Rightarrow> video option \<Rightarrow> int \<Rightarrow> (dl_error + download) option" where
  \<comment> \<open>\<^verbatim>\<open>messageHandlers.downloadVideo\<close>; its \<^verbatim>\<open>catch\<close> turns an exception into the
      error answer, which the sum type already is\<close>
  "downloadVideo p store mcd sched msg_video tab =
     (case msg_video of
        None \<Rightarrow> Some (Inl NoVideoSpecified)
      | Some v \<Rightarrow>
          if v_type v = ''hls'' then Some (downloadHLS p store mcd sched v tab)
          else if v_type v = ''dash'' then downloadDASH p store mcd v tab
          else Some (downloadDirect v))"

definition fetch_ok :: "platform \<Rightarrow> header_store \<Rightarrow> int \<Rightarrow> string \<Rightarrow> bool" where
  "fetch_ok p store tab url =
     (case authenticatedFetch p store url tab of Inr resp \<Rightarrow> ok resp | Inl err \<Rightarrow> False)"

definition fetch_failed :: "platform \<Rightarrow> header_store \<Rightarrow> int \<Rightarrow> string \<Rightarrow> bool" where
  "fetch_failed p store tab url =
     (case authenticatedFetch p store url tab of Inr resp \<Rightarrow> \<not> ok resp | Inl err \<Rightarrow> False)"

definition fetch_threw :: "platform \<Rightarrow> header_store \<Rightarrow> int \<Rightarrow> string \<Rightarrow> bool" where
  "fetch_threw p store tab url =
     (case authenticatedFetch p store url tab of Inr resp \<Rightarrow> False | Inl err \<Rightarrow> True)"

definition segment_bytes ::
  "platform \<Rightarrow> header_store \<Rightarrow> int \<Rightarrow> byte list option \<Rightarrow> keyInfo option \<Rightarrow> nat \<Rightarrow> segment \<Rightarrow> byte list" where
  "segment_bytes p store tab decryptionKey keyInfo idx seg =
     (case authenticatedFetch p store (seg_url seg) tab of
        Inl err \<Rightarrow> []
      | Inr resp \<Rightarrow>
          (case (decryptionKey, keyInfo) of
             (Some k, Some ki) \<Rightarrow> decryptSegment p (resp_bytes resp) k (key_iv ki) idx
           | _ \<Rightarrow> resp_bytes resp))"

definition expected_chunks ::
  "platform \<Rightarrow> header_store \<Rightarrow> int \<Rightarrow> byte list option \<Rightarrow> keyInfo option \<Rightarrow> nat \<Rightarrow> segment list \<Rightarrow>
   byte list list" where
  "expected_chunks p store tab decryptionKey keyInfo i segs =
     concat (map (\<lambda>(idx, seg). if fetch_ok p store tab (seg_url seg)
                                then [segment_bytes p store tab decryptionKey keyInfo idx seg] else [])
                 (enumerate i segs))"

definition count_failed :: "platform \<Rightarrow> header_store \<Rightarrow> int \<Rightarrow> segment list \<Rightarrow> nat" where
  "count_failed p store tab segs = length (filter (\<lambda>seg. fetch_failed p store tab (seg_url seg)) segs)"

text \<open>
  A schedule gives, for the batch that starts at index \<open>i\<close>, the order in which the
  requests of the batch complete, as positions in the batch. It is valid when each such
  order is a permutation of the positions of the batch. The loop reads the schedule at
  the batch starts only, so every order in which a browser completes the requests is
  covered by a valid schedule.
\<close>

definition valid_schedule :: "schedule \<Rightarrow> nat \<Rightarrow> nat \<Rightarrow> bool" where
  "valid_schedule sched mcd n =
     list_all (\<lambda>i. sort (sched i) = [0..<min (batchSize mcd) (n - i)]) [0..<n]"

definition cb_value ::
  "platform \<Rightarrow> header_store \<Rightarrow> int \<Rightarrow> byte list option \<Rightarrow> keyInfo option \<Rightarrow> segment list \<Rightarrow> nat \<Rightarrow> nat \<Rightarrow>
   byte list option" where
  "cb_value p store tab k ki batch i j =
     (if fetch_ok p store tab (seg_url (batch ! j))
      then Some (segment_bytes p store tab k ki (i + j) (batch ! j)) else None)"

definition response_status :: "platform \<Rightarrow> header_store \<Rightarrow> int \<Rightarrow> string \<Rightarrow> nat" where
  "response_status p store tab url =
     (case authenticatedFetch p store url tab of Inr resp \<Rightarrow> status resp | Inl err \<Rightarrow> 0)"

subsection \<open>DASH retrieval, described\<close>

definition body_of :: "platform \<Rightarrow> header_store \<Rightarrow> int \<Rightarrow> string \<Rightarrow> byte list" where
  \<comment> \<open>the body of the response to a segment request\<close>
  "body_of p store tab url =
     (case authenticatedFetch p store url tab of Inr resp \<Rightarrow> resp_bytes resp | Inl err \<Rightarrow> [])"

definition first_failure :: "platform \<Rightarrow> header_store \<Rightarrow> int \<Rightarrow> string list \<Rightarrow> nat" where
  \<comment> \<open>the position of the first segment whose request is not answered ok, the length of
      the list when there is none\<close>
  "first_failure p store tab segments = length (takeWhile (fetch_ok p store tab) segments)"

definition retrieved_count :: "platform \<Rightarrow> header_store \<Rightarrow> int \<Rightarrow> nat \<Rightarrow> string list \<Rightarrow> nat" where
  \<comment> \<open>all segments when none fails, else the segments before the batch of the first
      failure\<close>
  "retrieved_count p store tab bs segments =
     (if first_failure p store tab segments = length segments then length segments
      else (first_failure p store tab segments div bs) * bs)"

subsection \<open>Saved names: white space\<close>

text \<open>
  A string has no run of white space when no two neighbouring characters are both white
  space. This is what \<^verbatim>\<open>replace(/\s+/g, ' ')\<close> establishes.
\<close>

fun no_space_run :: "string \<Rightarrow> bool" where
  "no_space_run (c # d # cs) = (\<not> (js_space c \<and> js_space d) \<and> no_space_run (d # cs))"
| "no_space_run cs = True"

subsection \<open>Numbers: doubles and counts\<close>

text \<open>
  A rational is a double when rounding leaves it as it is and it lies within the range.
  A count is a Number that \<^verbatim>\<open>parseInt\<close> may read from a run of digits: a natural number
  or Infinity.
\<close>

definition is_double :: "rat \<Rightarrow> bool" where
  "is_double r = (nearest_double r = r \<and> \<bar>r\<bar> < 2 ^ 1024)"


subsection \<open>Media playlists, as the specification describes them\<close>

text \<open>
  A media playlist with N pairs of an EXTINF tag and a URI: header lines, then for every
  pair its EXTINF line, any number of other tags, comments or blank lines, and its URI
  line, then trailer lines. The text of the playlist is its lines joined by line feeds.
\<close>

fun js_join :: "char \<Rightarrow> string list \<Rightarrow> string" where
  "js_join c [] = []"
| "js_join c [l] = l"
| "js_join c (l # m # ls) = l @ c # js_join c (m # ls)"








subsection \<open>Master playlists, as the specification describes them\<close>









subsection \<open>Sample inputs\<close>

text \<open>
  A browser whose network is a table from URLs to responses: a URL that the table lacks
  is a request that fails at the network level. Its URL parser handles absolute URLs,
  which resolve to themselves; its \<^verbatim>\<open>parseFloat\<close> and number formatting handle natural
  numbers.
\<close>

fun digits_of_nat :: "nat \<Rightarrow> string" where
  \<comment> \<open>the decimal digits of a natural number\<close>
  "digits_of_nat n =
     (if n < 10 then [''0123456789'' ! n]
      else digits_of_nat (n div 10) @ [''0123456789'' ! (n mod 10)])"

declare digits_of_nat.simps [simp del]

definition table_platform :: "(string \<times> response) list \<Rightarrow> representation list \<Rightarrow> platform" where
  "table_platform table reps =
     \<lparr>url_href = (\<lambda>relative base. Some relative),
      url_origin = (\<lambda>url. None),
      parseFloat = (\<lambda>s. if takeWhile is_digit s = [] then NaN
                          else Fin (of_nat (decimal_value (takeWhile is_digit s)))),
      number_string = (\<lambda>n. case n of Fin r \<Rightarrow> digits_of_nat (nat \<lfloor>r\<rfloor>) | _ \<Rightarrow> ''NaN''),
      fetch = (\<lambda>url headers. case map_of table url of
                                Some resp \<Rightarrow> Inr resp
                              | None \<Rightarrow> Inl ''Failed to fetch''),
      cookies_getAll = (\<lambda>url. None),
      tab_url = (\<lambda>tab. None),
      aes_cbc_decrypt = (\<lambda>k iv data. None),
      mpd_representations = (\<lambda>content baseUrl. reps)\<rparr>"

definition answer :: "nat \<Rightarrow> byte list \<Rightarrow> response" where
  "answer st body = \<lparr>status = st, resp_text = [], resp_bytes = body\<rparr>"

definition no_headers :: header_store where
  "no_headers = (\<lambda>tab. None)"

definition media_playlist :: "string list \<Rightarrow> string" where
  \<comment> \<open>a media playlist with one four-second segment for every URI\<close>
  "media_playlist uris =
     js_join CHR 0x0A (''#EXTM3U'' # concat (map (\<lambda>u. [''#EXTINF:4,'', u]) uris))"

definition a_video :: video where
  "a_video = \<lparr>v_url = ''https://h/index.m3u8'', v_type = ''hls'', v_filename = Some ''index.m3u8'',
              selectedQuality = None\<rparr>"

definition four_uris :: "string list" where
  "four_uris = [''https://h/1.ts'', ''https://h/2.ts'', ''https://h/3.ts'', ''https://h/4.ts'']"

definition four_ok :: platform where
  "four_ok = table_platform
     [(''https://h/1.ts'', answer 200 [1]), (''https://h/2.ts'', answer 200 [2]),
      (''https://h/3.ts'', answer 200 [3]), (''https://h/4.ts'', answer 200 [4])] []"

definition in_order :: "nat \<Rightarrow> schedule" where
  \<comment> \<open>every batch of a list of \<open>n\<close> segments completes in request order\<close>
  "in_order n i = [0..<min 3 (n - i)]"

definition reversed :: "nat \<Rightarrow> schedule" where
  \<comment> \<open>every batch completes in the reverse of the request order\<close>
  "reversed n i = rev [0..<min 3 (n - i)]"

definition second_denied :: platform where
  \<comment> \<open>the second of four segments is answered 403\<close>
  "second_denied = table_platform
     [(''https://h/1.ts'', answer 200 [1]), (''https://h/2.ts'', answer 403 []),
      (''https://h/3.ts'', answer 200 [3]), (''https://h/4.ts'', answer 200 [4])] []"

definition seven_uris :: "string list" where
  "seven_uris = [''https://h/1.ts'', ''https://h/2.ts'', ''https://h/3.ts'', ''https://h/4.ts'',
                 ''https://h/5.ts'', ''https://h/6.ts'', ''https://h/7.ts'']"

definition six_denied :: platform where
  \<comment> \<open>the first of seven segments is answered 200, the other six 403\<close>
  "six_denied = table_platform
     [(''https://h/1.ts'', answer 200 [1]), (''https://h/2.ts'', answer 403 []),
      (''https://h/3.ts'', answer 403 []), (''https://h/4.ts'', answer 403 []),
      (''https://h/5.ts'', answer 403 []), (''https://h/6.ts'', answer 403 []),
      (''https://h/7.ts'', answer 403 [])] []"

definition two_uris :: "string list" where
  "two_uris = [''https://h/1.ts'', ''https://h/2.ts'']"

definition both_denied :: platform where
  "both_denied = table_platform
     [(''https://h/1.ts'', answer 403 []), (''https://h/2.ts'', answer 403 [])] []"

definition master_playlist :: "nat list \<Rightarrow> string" where
  \<comment> \<open>a master playlist that lists one variant for every bandwidth, in the given order\<close>
  "master_playlist bandwidths =
     js_join CHR 0x0A
       (''#EXTM3U'' #
        concat (map (\<lambda>bw. [''#EXT-X-STREAM-INF:BANDWIDTH='' @ digits_of_nat bw,
                            ''https://h/'' @ digits_of_nat bw @ ''.m3u8'']) bandwidths))"






definition long_name :: string where
  \<comment> \<open>a file name of 200 letters\<close>
  "long_name = replicate 200 CHR ''a''"

definition long_name_video :: video where
  "long_name_video = \<lparr>v_url = ''https://h/index.m3u8'', v_type = ''hls'', v_filename = Some long_name,
                       selectedQuality = None\<rparr>"

definition stored_session :: header_store where
  \<comment> \<open>tab 1 holds a cookie, the referer of the page and one custom header\<close>
  "stored_session =
     (\<lambda>tab. None)(1 \<mapsto> \<lparr>cookie = Some ''session=A'', authorization = None,
                          referer = Some ''https://site.example/watch'', origin = None,
                          custom = Some [(''X-Token'', ''t1'')]\<rparr>)"

definition segment_request :: request_details where
  \<comment> \<open>a later request of tab 1 for a segment, with another cookie and another custom header\<close>
  "segment_request =
     \<lparr>tabId = 1, req_url = ''https://cdn.example/seg1.ts'',
      requestHeaders = Some [\<lparr>h_name = ''Cookie'', h_value = ''session=B''\<rparr>,
                             \<lparr>h_name = ''X-Other'', h_value = ''z''\<rparr>]\<rparr>"

definition origin_platform :: platform where
  \<comment> \<open>a browser for which the origin of the segment URL is \<^verbatim>\<open>https://cdn.example\<close>\<close>
  "origin_platform = (table_platform [] [])\<lparr>url_origin := (\<lambda>url. Some ''https://cdn.example'')\<rparr>"

definition default_template :: template where
  \<comment> \<open>a SegmentTemplate with a media pattern and no other attribute: \<^verbatim>\<open>parseMPD\<close> fills in
      startNumber 1, timescale 1 and duration 0\<close>
  "default_template =
     \<lparr>initialization = None, media = Some ''https://h/chunk-$Number$.m4s'', startNumber = Fin 1,
      timescale = Fin 1, duration = Fin 0\<rparr>"

definition default_rep :: representation where
  "default_rep =
     \<lparr>rep_id = ''v1'', rep_url = ''https://h/manifest.mpd'', rep_bandwidth = Fin 1000000, isVideo = True,
      isAudio = False, segmentTemplate = Some default_template\<rparr>"

definition three_chunks :: template where
  \<comment> \<open>segments of 2400 seconds: three of them fit into 7200 seconds\<close>
  "three_chunks =
     \<lparr>initialization = None, media = Some ''https://h/chunk-$Number$.m4s'', startNumber = Fin 1,
      timescale = Fin 1, duration = Fin 2400\<rparr>"

definition templated_rep :: representation where
  "templated_rep =
     \<lparr>rep_id = ''v1'', rep_url = ''https://h/manifest.mpd'', rep_bandwidth = Fin 1000000, isVideo = True,
      isAudio = False, segmentTemplate = Some three_chunks\<rparr>"

definition dash_video :: video where
  "dash_video = \<lparr>v_url = ''https://h/manifest.mpd'', v_type = ''dash'', v_filename = Some ''manifest.mpd'',
                 selectedQuality = None\<rparr>"

definition middle_missing :: platform where
  \<comment> \<open>the second of the three chunks does not exist\<close>
  "middle_missing = table_platform
     [(''https://h/chunk-1.m4s'', answer 200 [1]), (''https://h/chunk-2.m4s'', answer 404 []),
      (''https://h/chunk-3.m4s'', answer 200 [3])] []"

definition direct_rep :: representation where
  \<comment> \<open>a representation with a BaseURL of its own\<close>
  "direct_rep =
     \<lparr>rep_id = ''v1'', rep_url = ''https://h/v1.mp4'', rep_bandwidth = Fin 1000000, isVideo = True,
      isAudio = False, segmentTemplate = None\<rparr>"

definition dash_site :: platform where
  \<comment> \<open>a site whose manifest parses to the one direct representation\<close>
  "dash_site = table_platform [(''https://h/manifest.mpd'', answer 200 [])] [direct_rep]"

definition hls_site :: platform where
  \<comment> \<open>a site whose master playlist lists two variants\<close>
  "hls_site = table_platform
     [(''https://h/index.m3u8'',
       \<lparr>status = 200, resp_text = master_playlist [3000000, 1200000], resp_bytes = []\<rparr>)] []"

definition unknown_quality :: "video \<Rightarrow> video" where
  \<comment> \<open>the caller asks for a quality that no manifest lists\<close>
  "unknown_quality v = v\<lparr>selectedQuality := Some ''nope''\<rparr>"

definition three_ok :: platform where
  "three_ok = table_platform
     [(''https://h/chunk-1.m4s'', answer 200 [1]), (''https://h/chunk-2.m4s'', answer 200 [2]),
      (''https://h/chunk-3.m4s'', answer 200 [3])] []"

definition long_name_dash_video :: video where
  "long_name_dash_video =
     \<lparr>v_url = ''https://h/manifest.mpd'', v_type = ''dash'', v_filename = Some long_name,
      selectedQuality = None\<rparr>"

section \<open>Properties\<close>

subsection \<open>Rounding to the nearest double\<close>

lemma pow2_less_D: "(2::rat) powi a < 2 powi b \<Longrightarrow> a < b"
proof (rule ccontr)
  assume l: "(2::rat) powi a < 2 powi b" and "\<not> a < b"
  then have "b \<le> a" by simp
  then have "(2::rat) powi b \<le> 2 powi a" by (rule power_int_increasing) simp
  with l show False by simp
qed

lemma pow2_le_D: "(2::rat) powi a \<le> 2 powi b \<Longrightarrow> a \<le> b"
proof (rule ccontr)
  assume l: "(2::rat) powi a \<le> 2 powi b" and "\<not> a \<le> b"
  then have "b < a" by simp
  then have "(2::rat) powi b < 2 powi a" by (rule power_int_strict_increasing) simp
  with l show False by simp
qed


lemma binary_exponent_bounds:
  assumes "0 < x"
  shows "2 powi binary_exponent x \<le> x" and "x < 2 powi (binary_exponent x + 1)"
proof -
  obtain p q where pq: "quotient_of x = (p, q)" by (cases "quotient_of x")
  then have x: "x = of_int p / of_int q" and q: "0 < q"
    by (simp_all add: quotient_of_div quotient_of_denom_pos)
  from assms x q have p: "0 < p"
    by (simp add: zero_less_divide_iff)
  define a b where "a = bitlen p" and "b = bitlen q"
  from p q have a1: "1 \<le> a" and b1: "1 \<le> b"
    using bitlen_eq_zero_iff [of p] bitlen_eq_zero_iff [of q] bitlen_nonneg [of p] bitlen_nonneg [of q]
    by (auto simp: a_def b_def)
  from bitlen_bounds [OF p] have "(2::int) ^ nat (a - 1) \<le> p" "p < 2 ^ nat a"
    by (simp_all add: a_def)
  then have "(of_int (2 ^ nat (a - 1)) :: rat) \<le> of_int p" "(of_int p :: rat) < of_int (2 ^ nat a)"
    by (simp_all only: of_int_le_iff of_int_less_iff)
  with a1 have pa: "2 powi (a - 1) \<le> (of_int p :: rat)" "(of_int p :: rat) < 2 powi a"
    by (simp_all add: power_int_def)
  from bitlen_bounds [OF q] have "(2::int) ^ nat (b - 1) \<le> q" "q < 2 ^ nat b"
    by (simp_all add: b_def)
  then have "(of_int (2 ^ nat (b - 1)) :: rat) \<le> of_int q" "(of_int q :: rat) < of_int (2 ^ nat b)"
    by (simp_all only: of_int_le_iff of_int_less_iff)
  with b1 have qb: "2 powi (b - 1) \<le> (of_int q :: rat)" "(of_int q :: rat) < 2 powi b"
    by (simp_all add: power_int_def)
  have qpos: "(0::rat) < of_int q" using q by simp
  have ppos: "(0::rat) < of_int p" using p by simp
  have up: "x < 2 powi (a - b + 1)"
  proof -
    have "x \<le> of_int p / 2 powi (b - 1)"
      unfolding x using qb(1) ppos qpos by (intro divide_left_mono) (simp_all add: less_imp_le)
    also have "\<dots> < 2 powi a / 2 powi (b - 1)"
      using pa(2) by (intro divide_strict_right_mono) simp_all
    also have "\<dots> = 2 powi (a - b + 1)"
      by (simp add: power_int_diff [symmetric] algebra_simps)
    finally show ?thesis .
  qed
  have lo: "2 powi (a - b - 1) < x"
  proof -
    have "2 powi (a - b - 1) = 2 powi (a - 1) / (2 powi b :: rat)"
      by (simp add: power_int_diff [symmetric] algebra_simps)
    also have "\<dots> \<le> of_int p / 2 powi b"
      using pa(1) by (intro divide_right_mono) simp_all
    also have "\<dots> < of_int p / of_int q"
      using qb(2) ppos qpos by (intro divide_strict_left_mono) simp_all
    finally show ?thesis by (simp add: x)
  qed
  have e: "binary_exponent x = (if 2 powi (a - b) \<le> x then a - b else a - b - 1)"
    by (simp add: binary_exponent_def pq a_def b_def Let_def)
  show "2 powi binary_exponent x \<le> x"
    using lo by (simp add: e less_imp_le)
  show "x < 2 powi (binary_exponent x + 1)"
    using up by (simp add: e not_le)
qed

lemma binary_exponent_unique:
  assumes "2 powi e \<le> x" and "x < 2 powi (e + 1)"
  shows "binary_exponent x = e"
proof -
  have "(0::rat) < 2 powi e" by simp
  from this assms(1) have x: "0 < x" by (rule less_le_trans)
  note b = binary_exponent_bounds [OF x]
  from b(1) assms(2) have "(2::rat) powi binary_exponent x < 2 powi (e + 1)" by (rule le_less_trans)
  then have "binary_exponent x < e + 1" by (rule pow2_less_D)
  moreover from assms(1) b(2) have "(2::rat) powi e < 2 powi (binary_exponent x + 1)" by (rule le_less_trans)
  then have "e < binary_exponent x + 1" by (rule pow2_less_D)
  ultimately show ?thesis by simp
qed

lemma binary_exponent_ge: "2 powi e \<le> x \<Longrightarrow> e \<le> binary_exponent x"
proof -
  assume a: "2 powi e \<le> x"
  have "(0::rat) < 2 powi e" by simp
  from this a have x: "0 < x" by (rule less_le_trans)
  from a binary_exponent_bounds(2) [OF x] have "(2::rat) powi e < 2 powi (binary_exponent x + 1)"
    by (rule le_less_trans)
  then have "e < binary_exponent x + 1" by (rule pow2_less_D)
  then show ?thesis by simp
qed

lemma binary_exponent_less: "0 < x \<Longrightarrow> x < 2 powi e \<Longrightarrow> binary_exponent x < e"
proof -
  assume x: "0 < x" and a: "x < 2 powi e"
  from binary_exponent_bounds(1) [OF x] a have "(2::rat) powi binary_exponent x < 2 powi e"
    by (rule le_less_trans)
  then show ?thesis by (rule pow2_less_D)
qed

lemma round_half_even_int: "round_half_even (of_int n) = n"
  by (simp add: round_half_even_def)

lemma round_half_even_ge: "of_int n \<le> q \<Longrightarrow> n \<le> round_half_even q"
proof -
  assume "of_int n \<le> q"
  then have "n \<le> \<lfloor>q\<rfloor>" by (simp add: le_floor_iff)
  then show ?thesis by (simp add: round_half_even_def Let_def)
qed

lemma round_half_even_le: "q \<le> of_int n \<Longrightarrow> round_half_even q \<le> n"
proof (cases "q = of_int n")
  case True
  then show ?thesis by (simp add: round_half_even_int)
next
  case False
  assume "q \<le> of_int n"
  with False have "q < of_int n" by simp
  then have "\<lfloor>q\<rfloor> < n" by (simp add: floor_less_iff)
  then show ?thesis by (simp add: round_half_even_def Let_def)
qed

lemma round_half_even_below_half: "q < of_int n - 1 / 2 \<Longrightarrow> round_half_even q \<le> n - 1"
proof -
  assume a: "q < of_int n - 1 / 2"
  then have "q < of_int n" by simp
  then have f: "\<lfloor>q\<rfloor> \<le> n - 1" by (simp add: floor_less_iff)
  show ?thesis
  proof (cases "\<lfloor>q\<rfloor> = n - 1")
    case True
    with a have "q - of_int \<lfloor>q\<rfloor> < 1 / 2" by simp
    then show ?thesis using True by (simp add: round_half_even_def Let_def)
  next
    case False
    with f have "\<lfloor>q\<rfloor> + 1 \<le> n - 1" by simp
    then show ?thesis by (simp add: round_half_even_def Let_def)
  qed
qed

lemma nearest_double_minus: "nearest_double (- x) = - nearest_double x"
  by (simp add: nearest_double_def Let_def)

lemma nearest_double_nonneg: "0 \<le> x \<Longrightarrow> 0 \<le> nearest_double x"
proof -
  assume x: "0 \<le> x"
  have "0 \<le> round_half_even (\<bar>x\<bar> / 2 powi k)" for k
    by (rule round_half_even_ge) simp
  with x show ?thesis
    by (simp add: nearest_double_def Let_def sgn_if)
qed

lemma nearest_double_exact:
  assumes "x \<noteq> 0" and "\<bar>x\<bar> / 2 powi (max (binary_exponent \<bar>x\<bar>) (- 1022) - 52) = of_int n"
  shows "nearest_double x = x"
proof -
  define k where "k = max (binary_exponent \<bar>x\<bar>) (- 1022) - 52"
  from assms(2) have q: "\<bar>x\<bar> / 2 powi k = of_int n" by (simp add: k_def)
  have "nearest_double x = sgn x * of_int (round_half_even (\<bar>x\<bar> / 2 powi k)) * 2 powi k"
    using assms(1) by (simp add: nearest_double_def k_def Let_def)
  also have "\<dots> = sgn x * (\<bar>x\<bar> / 2 powi k) * 2 powi k"
    by (simp only: q round_half_even_int)
  also have "\<dots> = x" by (simp add: sgn_if)
  finally show ?thesis .
qed

lemma nearest_double_small_int:
  assumes "0 < m" and "m \<le> 2 ^ 53"
  shows "nearest_double (of_int m) = of_int m"
proof -
  define x :: rat where "x = of_int m"
  define e where "e = binary_exponent x"
  from assms have x1: "1 \<le> x" and x53: "x \<le> 2 ^ 53" and x0: "0 < x"
    unfolding x_def by (simp_all only: of_int_1_le_iff of_int_le_numeral_power_cancel_iff of_int_0_less_iff)
  from x1 have "2 powi 0 \<le> x" by simp
  then have e0: "0 \<le> e" unfolding e_def by (rule binary_exponent_ge)
  have le: "2 powi e \<le> x" unfolding e_def by (rule binary_exponent_bounds(1) [OF x0])
  with x53 have "(2::rat) powi e \<le> 2 powi 53" by simp
  then have e53: "e \<le> 53" by (rule pow2_le_D)
  have k: "max (binary_exponent \<bar>x\<bar>) (- 1022) - 52 = e - 52"
    using e0 x0 by (simp add: e_def)
  have "\<exists>n. \<bar>x\<bar> / 2 powi (e - 52) = of_int n"
  proof (cases "e = 53")
    case True
    with le x53 have "x = 2 ^ 53" by simp
    then have "\<bar>x\<bar> / 2 powi (e - 52) = of_int (2 ^ 52)" using True by simp
    then show ?thesis ..
  next
    case False
    with e53 have n: "0 \<le> 52 - e" by simp
    have "\<bar>x\<bar> / 2 powi (e - 52) = x * 2 powi (52 - e)"
      using x0 power_int_minus [of "2::rat" "e - 52"] by (simp add: field_simps)
    also have "\<dots> = of_int (m * 2 ^ nat (52 - e))"
      using n by (simp add: x_def power_int_def)
    finally show ?thesis ..
  qed
  then obtain n where "\<bar>x\<bar> / 2 powi (max (binary_exponent \<bar>x\<bar>) (- 1022) - 52) = of_int n"
    unfolding k ..
  with x0 have "nearest_double x = x"
    by (intro nearest_double_exact [of x n]) simp_all
  then show ?thesis by (simp only: x_def)
qed

lemma nearest_double_int:
  assumes "\<bar>m\<bar> \<le> 2 ^ 53"
  shows "nearest_double (of_int m) = of_int m"
proof -
  consider "m = 0" | "0 < m" | "m < 0" by linarith
  then show ?thesis
  proof cases
    case 1
    then show ?thesis by (simp add: nearest_double_def)
  next
    case 2
    with assms show ?thesis by (intro nearest_double_small_int) simp_all
  next
    case 3
    with assms have "nearest_double (of_int (- m)) = of_int (- m)"
      by (intro nearest_double_small_int) simp_all
    then show ?thesis by (simp add: nearest_double_minus)
  qed
qed




lemma round_double_int: "\<bar>m\<bar> \<le> 2 ^ 53 \<Longrightarrow> round_double (of_int m) = Fin (of_int m)"
proof -
  assume m: "\<bar>m\<bar> \<le> 2 ^ 53"
  then have "(of_int \<bar>m\<bar> :: rat) \<le> 2 ^ 53"
    by (simp only: of_int_le_numeral_power_cancel_iff)
  also have "\<dots> < 2 ^ 1024" by simp
  finally have "\<not> (2 ^ 1024 \<le> \<bar>of_int m :: rat\<bar>)" by simp
  then show ?thesis
    by (simp add: round_double_def finite_double_def nearest_double_int [OF m] Let_def)
qed



lemma nearest_double_0 [simp]: "nearest_double 0 = 0"
  by (simp add: nearest_double_def)


lemma finite_double_int: "\<bar>m\<bar> \<le> 2 ^ 53 \<Longrightarrow> finite_double (of_int m) = Fin (of_int m)"
  by (simp add: finite_double_def nearest_double_int Let_def)

lemma round_double_numeral [simp]:
  "numeral w \<le> (2::int) ^ 53 \<Longrightarrow> round_double (numeral w) = Fin (numeral w)"
  using round_double_int [of "numeral w"] by simp

lemma round_double_neg_numeral [simp]:
  "numeral w \<le> (2::int) ^ 53 \<Longrightarrow> round_double (- numeral w) = Fin (- numeral w)"
  using round_double_int [of "- numeral w"] by simp

lemma round_double_0 [simp]: "round_double 0 = Fin 0"
  using round_double_int [of 0] by simp

lemma round_double_1 [simp]: "round_double 1 = Fin 1"
  using round_double_int [of 1] by simp

subsection \<open>The increment does not overflow\<close>

lemma nearest_double_below_overflow:
  assumes "0 < y" and "y < 2 ^ 1024 - 2 ^ 970"
  shows "nearest_double y < 2 ^ 1024"
proof -
  define e where "e = binary_exponent y"
  define k where "k = max e (- 1022) - 52"
  define r where "r = round_half_even (y / 2 powi k)"
  have nd: "nearest_double y = of_int r * 2 powi k"
    using assms(1) by (simp add: nearest_double_def e_def k_def r_def Let_def)
  have up: "y < 2 powi (e + 1)" unfolding e_def by (rule binary_exponent_bounds(2) [OF assms(1)])
  from assms(2) have "y < 2 powi 1024" by simp
  with assms(1) have "e < 1024" unfolding e_def by (rule binary_exponent_less)
  then consider "e = 1023" | "e \<le> 1022" by linarith
  then show ?thesis
  proof cases
    case 1
    then have k: "k = 971" by (simp add: k_def)
    have "y / 2 powi k < (2 ^ 1024 - 2 ^ 970) / 2 powi k"
      using assms(2) by (intro divide_strict_right_mono) simp_all
    also have "\<dots> = of_int (2 ^ 53) - 1 / 2" by (simp add: k)
    finally have "r \<le> 2 ^ 53 - 1"
      unfolding r_def by (rule round_half_even_below_half)
    then have "(of_int r :: rat) \<le> of_int (2 ^ 53 - 1)" by (simp only: of_int_le_iff)
    then have "(of_int r :: rat) * 2 powi k \<le> of_int (2 ^ 53 - 1) * 2 powi k"
      by (intro mult_right_mono) simp_all
    also have "\<dots> < 2 ^ 1024" by (simp add: k)
    finally show ?thesis by (simp only: nd)
  next
    case 2
    have q: "y / 2 powi k \<le> of_int (2 ^ 53)"
    proof (cases "- 1022 \<le> e")
      case True
      then have k: "k = e - 52" by (simp add: k_def)
      have "y / 2 powi k \<le> 2 powi (e + 1) / 2 powi k"
        using up by (intro divide_right_mono) simp_all
      also have "\<dots> = 2 powi 53" by (simp add: k power_int_diff [symmetric])
      finally show ?thesis by simp
    next
      case False
      then have k: "k = - 1074" by (simp add: k_def)
      from False have "e + 1 \<le> - 1022" by simp
      then have "(2::rat) powi (e + 1) \<le> 2 powi (- 1022)" by (rule power_int_increasing) simp
      with up have "y \<le> 2 powi (- 1022)" by simp
      then have "y / 2 powi k \<le> 2 powi (- 1022) / 2 powi k"
        by (intro divide_right_mono) simp_all
      also have "\<dots> = 2 powi 52" unfolding k by (simp add: power_int_diff [symmetric])
      also have "\<dots> \<le> of_int (2 ^ 53)" by simp
      finally show ?thesis .
    qed
    then have "r \<le> 2 ^ 53" unfolding r_def by (rule round_half_even_le)
    then have "(of_int r :: rat) \<le> 2 powi 53" by (simp add: of_int_le_numeral_power_cancel_iff)
    then have "(of_int r :: rat) * 2 powi k \<le> 2 powi 53 * 2 powi k"
      by (intro mult_right_mono) simp_all
    also have "\<dots> = 2 powi (53 + k)" by (rule power_int_add [symmetric]) simp
    also have "\<dots> \<le> 2 powi 1023"
      using 2 by (intro power_int_increasing) (simp_all add: k_def)
    also have "\<dots> < 2 ^ 1024" by simp
    finally show ?thesis by (simp only: nd)
  qed
qed

lemma double_le_largest:
  assumes "is_double r" and "0 < r"
  shows "r \<le> 2 ^ 1024 - 2 ^ 971"
proof -
  define e where "e = binary_exponent r"
  from assms have nd: "nearest_double r = r" and lt: "r < 2 ^ 1024"
    by (simp_all add: is_double_def)
  from lt have "r < 2 powi 1024" by simp
  with assms(2) have "e < 1024" unfolding e_def by (rule binary_exponent_less)
  then consider "e = 1023" | "e \<le> 1022" by linarith
  then show ?thesis
  proof cases
    case 1
    define n where "n = round_half_even (r / 2 powi 971)"
    from assms(2) 1 have "nearest_double r = of_int n * 2 powi 971"
      by (simp add: nearest_double_def e_def n_def Let_def)
    with nd have r: "r = of_int n * 2 ^ 971" by simp
    with lt have "(of_int n :: rat) * 2 ^ 971 < 2 ^ 53 * 2 ^ 971" by simp
    then have "(of_int n :: rat) < 2 ^ 53" by (simp only: mult_less_cancel_right_pos zero_less_power zero_less_numeral)
    then have "n < 2 ^ 53" by (simp only: of_int_less_numeral_power_cancel_iff)
    then have "n \<le> 2 ^ 53 - 1" by simp
    then have "(of_int n :: rat) \<le> of_int (2 ^ 53 - 1)" by (simp only: of_int_le_iff)
    then have "(of_int n :: rat) * 2 ^ 971 \<le> of_int (2 ^ 53 - 1) * 2 ^ 971"
      by (intro mult_right_mono) simp_all
    also have "\<dots> = 2 ^ 1024 - 2 ^ 971" by simp
    finally show ?thesis by (simp only: r)
  next
    case 2
    then have "e + 1 \<le> 1023" by simp
    then have "(2::rat) powi (e + 1) \<le> 2 powi 1023" by (rule power_int_increasing) simp
    moreover have "r < 2 powi (e + 1)" unfolding e_def by (rule binary_exponent_bounds(2) [OF assms(2)])
    ultimately have "r < 2 powi 1023" by simp
    also have "\<dots> \<le> 2 ^ 1024 - 2 ^ 971" by simp
    finally show ?thesis by simp
  qed
qed

lemma is_double_minus: "is_double (- r) = is_double r"
  by (auto simp: is_double_def nearest_double_minus)

lemma double_abs_le_largest: "is_double r \<Longrightarrow> \<bar>r\<bar> \<le> 2 ^ 1024 - 2 ^ 971"
proof -
  assume d: "is_double r"
  consider "r = 0" | "0 < r" | "r < 0" by linarith
  then show ?thesis
  proof cases
    case 1
    then show ?thesis by simp
  next
    case 2
    with d show ?thesis using double_le_largest [of r] by simp
  next
    case 3
    with d show ?thesis using double_le_largest [of "- r"] by (simp add: is_double_minus)
  qed
qed

text \<open>
  The rounding of a positive value whose exponent is known.
\<close>

lemma round_double_normal:
  assumes "2 powi e \<le> x" and "x < 2 powi (e + 1)" and "- 1022 \<le> e" and "e \<le> 1022"
  shows "round_double x = Fin (of_int (round_half_even (x / 2 powi (e - 52))) * 2 powi (e - 52))"
proof -
  have "(0::rat) < 2 powi e" by simp
  from this assms(1) have x: "0 < x" by (rule less_le_trans)
  from assms(1,2) have e: "binary_exponent x = e" by (rule binary_exponent_unique)
  from assms(4) have "(2::rat) powi (e + 1) \<le> 2 powi 1023" by (intro power_int_increasing) simp_all
  also have "\<dots> < 2 ^ 1024 - 2 ^ 970" by simp
  finally have "x < 2 ^ 1024 - 2 ^ 970" using assms(2) by simp
  with x have "nearest_double x < 2 ^ 1024" by (rule nearest_double_below_overflow)
  moreover from x have "0 \<le> nearest_double x" by (intro nearest_double_nonneg) simp
  moreover have "nearest_double x = of_int (round_half_even (x / 2 powi (e - 52))) * 2 powi (e - 52)"
    using x assms(3) by (simp add: nearest_double_def e Let_def max_def)
  ultimately show ?thesis
    using x by (simp add: round_double_def finite_double_def Let_def)
qed

lemma round_half_even_at:
  "of_int f \<le> q \<Longrightarrow> q < of_int f + 1 \<Longrightarrow>
   round_half_even q =
     (if q - of_int f < 1 / 2 then f else if 1 / 2 < q - of_int f then f + 1
      else if even f then f else f + 1)"
  by (simp add: round_half_even_def floor_unique Let_def)

lemma round_double_at:
  assumes "2 powi e \<le> x" and "x < 2 powi (e + 1)" and "- 1022 \<le> e" and "e \<le> 1022"
    and "of_int f \<le> x / 2 powi (e - 52)" and "x / 2 powi (e - 52) < of_int f + 1"
  shows "round_double x =
           Fin (of_int (if x / 2 powi (e - 52) - of_int f < 1 / 2 then f
                        else if 1 / 2 < x / 2 powi (e - 52) - of_int f then f + 1
                        else if even f then f else f + 1) * 2 powi (e - 52))"
  by (simp only: round_double_normal [OF assms(1-4)] round_half_even_at [OF assms(5,6)])

text \<open>
  On the doubles, \<open>js_incr\<close> is the addition of one.
\<close>

lemma js_incr_is_add:
  assumes "is_double r"
  shows "js_incr (Fin r) = js_add (Fin r) (Fin 1)"
proof -
  have "\<bar>nearest_double (r + 1)\<bar> < 2 ^ 1024"
  proof (cases "r + 1 = 0")
    case True
    then show ?thesis by (simp add: nearest_double_def)
  next
    case False
    have "\<bar>r + 1\<bar> \<le> \<bar>r\<bar> + 1" by simp
    also have "\<dots> \<le> 2 ^ 1024 - 2 ^ 971 + 1"
      using double_abs_le_largest [OF assms] by simp
    also have "\<dots> < 2 ^ 1024 - 2 ^ 970" by simp
    finally have b: "\<bar>r + 1\<bar> < 2 ^ 1024 - 2 ^ 970" .
    from False have p: "0 < \<bar>r + 1\<bar>" by simp
    have "\<bar>nearest_double (r + 1)\<bar> = nearest_double \<bar>r + 1\<bar>"
    proof (cases "0 \<le> r + 1")
      case True
      then have "0 \<le> nearest_double (r + 1)" by (rule nearest_double_nonneg)
      with True show ?thesis by simp
    next
      case False
      then have "0 \<le> nearest_double (- (r + 1))" by (intro nearest_double_nonneg) simp
      then have "nearest_double (r + 1) \<le> 0" using nearest_double_minus [of "r + 1"] by simp
      moreover from False have "\<bar>r + 1\<bar> = - (r + 1)" by simp
      ultimately show ?thesis using nearest_double_minus [of "r + 1"] by simp
    qed
    also have "\<dots> < 2 ^ 1024" using p b by (rule nearest_double_below_overflow)
    finally show ?thesis .
  qed
  then show ?thesis
    by (simp add: js_incr_def js_add_def is_inf_def rat_of_def round_double_def)
qed

subsection \<open>The order of the counts\<close>










subsection \<open>Sorting by a count, greatest first\<close>


lemma length_insert_sorted: "length (insert_sorted c x ys) = Suc (length ys)"
  by (induction ys) auto

lemma js_sort_Nil: "js_sort c [] = []"
  by (simp add: js_sort_def)

lemma js_sort_Cons: "js_sort c (x # xs) = insert_sorted c x (js_sort c xs)"
  by (simp add: js_sort_def)


lemma length_js_sort: "length (js_sort c xs) = length xs"
  by (induction xs) (simp_all add: js_sort_Nil js_sort_Cons length_insert_sorted)

lemma js_sort_eq_Nil: "js_sort c xs = [] \<longleftrightarrow> xs = []"
  using length_js_sort [of c xs] by (metis length_0_conv)






subsection \<open>Master playlists: the bandwidth of a variant is a count\<close>




text \<open>
  The expression \<^verbatim>\<open>/BANDWIDTH=(\d+)/\<close> reads the digits of the attribute that is written
  first, be it \<^verbatim>\<open>BANDWIDTH\<close> or \<^verbatim>\<open>AVERAGE-BANDWIDTH\<close>.
\<close>

lemma match_bandwidth_digits:
  assumes "ds \<noteq> []" and "list_all is_digit ds" and "rest = [] \<or> \<not> is_digit (hd rest)"
  shows "match_bandwidth (''BANDWIDTH='' @ ds @ rest) = Some ds"
proof -
  from assms(2,3) have "takeWhile is_digit (ds @ rest) = ds"
    by (cases rest) (simp_all add: takeWhile_append2 list_all_iff)
  with assms(1) show ?thesis
    by (simp add: match_bandwidth_def startsWith_def)
qed

lemma regex_scan_here: "m s = Some r \<Longrightarrow> regex_scan m s = Some r"
  by (cases s) simp_all

lemma bandwidth_written_first:
  assumes "ds \<noteq> []" and "list_all is_digit ds" and "rest = [] \<or> \<not> is_digit (hd rest)"
  shows "regex_scan match_bandwidth (''BANDWIDTH='' @ ds @ rest) = Some ds"
  using match_bandwidth_digits [OF assms] by (rule regex_scan_here)

lemma match_bandwidth_other: "c \<noteq> CHR ''B'' \<Longrightarrow> match_bandwidth (c # cs) = None"
  by (simp add: match_bandwidth_def startsWith_def)

lemma average_bandwidth_written_first:
  assumes "ds \<noteq> []" and "list_all is_digit ds" and "rest = [] \<or> \<not> is_digit (hd rest)"
  shows "regex_scan match_bandwidth (''AVERAGE-BANDWIDTH='' @ ds @ rest) = Some ds"
proof -
  have "regex_scan match_bandwidth (''AVERAGE-'' @ s) = regex_scan match_bandwidth s" for s
    by (simp add: match_bandwidth_other)
  from this [of "''BANDWIDTH='' @ ds @ rest"]
  have "regex_scan match_bandwidth (''AVERAGE-BANDWIDTH='' @ ds @ rest) =
        regex_scan match_bandwidth (''BANDWIDTH='' @ ds @ rest)"
    by simp
  then show ?thesis
    by (simp only: bandwidth_written_first [OF assms])
qed

subsection \<open>Media playlists: one segment for every pair\<close>









subsection \<open>Master playlists: one representation for every variant\<close>







lemmas master_simps =
  parseM3U8Master_def master_playlist_def digits_of_nat.simps js_trim_def js_space_def startsWith_def
  stream_inf_def match_bandwidth_def match_resolution_def match_name_def is_digit_def
  decimal_value_def digit_val_def parseInt10_def js_sort_def js_sub_def js_neg_def js_add_def
  is_inf_def rat_of_def js_less_def Let_def

lemma fetch_cases:
  "fetch_ok p store tab u \<or> fetch_failed p store tab u \<or> fetch_threw p store tab u"
  by (auto simp: fetch_ok_def fetch_failed_def fetch_threw_def split: sum.splits)

lemma fetch_ok_excl:
  "fetch_ok p store tab u \<Longrightarrow> \<not> fetch_failed p store tab u \<and> \<not> fetch_threw p store tab u"
  by (auto simp: fetch_ok_def fetch_failed_def fetch_threw_def split: sum.splits)

lemma fetch_failed_excl:
  "fetch_failed p store tab u \<Longrightarrow> \<not> fetch_ok p store tab u \<and> \<not> fetch_threw p store tab u"
  by (auto simp: fetch_ok_def fetch_failed_def fetch_threw_def split: sum.splits)

lemma hls_callback_ok:
  "fetch_ok p store tab (seg_url (batch ! j)) \<Longrightarrow>
   hls_callback p store tab k ki batch i j fc = (Inr (cb_value p store tab k ki batch i j), fc)"
  by (auto simp: hls_callback_def fetch_ok_def cb_value_def segment_bytes_def
           split: sum.splits option.splits)

lemma hls_callback_threw:
  "fetch_threw p store tab (seg_url (batch ! j)) \<Longrightarrow>
   \<exists>err. hls_callback p store tab k ki batch i j fc = (Inl (Thrown err), fc)"
  by (auto simp: hls_callback_def fetch_threw_def split: sum.splits)

lemma hls_callback_skip:
  "fetch_failed p store tab (seg_url (batch ! j)) \<Longrightarrow> fc < 5 \<Longrightarrow>
   hls_callback p store tab k ki batch i j fc = (Inr (cb_value p store tab k ki batch i j), fc + 1)"
  by (auto simp: hls_callback_def fetch_failed_def fetch_ok_def cb_value_def split: sum.splits)

lemma hls_callback_abort:
  "fetch_failed p store tab (seg_url (batch ! j)) \<Longrightarrow> 5 \<le> fc \<Longrightarrow>
   hls_callback p store tab k ki batch i j fc =
     (Inl (TooManySegmentFailures (response_status p store tab (seg_url (batch ! j)))), fc + 1)"
  by (auto simp: hls_callback_def fetch_failed_def response_status_def split: sum.splits)

lemma settle_hls_Inr:
  assumes "settle (hls_callback p store tab k ki batch i) ord results fc = (Inr res, fc')"
  shows "res = fold (\<lambda>j r. r[j := Some (cb_value p store tab k ki batch i j)]) ord results
         \<and> fc' = fc + length (filter (\<lambda>j. fetch_failed p store tab (seg_url (batch ! j))) ord)
         \<and> (fc \<le> 5 \<longrightarrow> fc' \<le> 5)
         \<and> list_all (\<lambda>j. \<not> fetch_threw p store tab (seg_url (batch ! j))) ord"
  using assms
proof (induction ord arbitrary: results fc)
  case Nil
  then show ?case by simp
next
  case (Cons j js)
  let ?u = "seg_url (batch ! j)"
  let ?next = "results[j := Some (cb_value p store tab k ki batch i j)]"
  consider (ok) "fetch_ok p store tab ?u" | (failed) "fetch_failed p store tab ?u"
    | (threw) "fetch_threw p store tab ?u"
    using fetch_cases by blast
  then show ?case
  proof cases
    case ok
    from Cons.prems hls_callback_ok [OF ok, of k ki i fc]
    have "settle (hls_callback p store tab k ki batch i) js ?next fc = (Inr res, fc')"
      by simp
    from Cons.IH [OF this] fetch_ok_excl [OF ok] show ?thesis by auto
  next
    case failed
    have lt: "fc < 5"
    proof (rule ccontr)
      assume "\<not> fc < 5"
      then have "5 \<le> fc" by simp
      from hls_callback_abort [OF failed this, of k ki i] Cons.prems show False by auto
    qed
    from Cons.prems hls_callback_skip [OF failed lt, of k ki i]
    have "settle (hls_callback p store tab k ki batch i) js ?next (fc + 1) = (Inr res, fc')"
      by simp
    from Cons.IH [OF this] failed fetch_failed_excl [OF failed] lt show ?thesis by auto
  next
    case threw
    from hls_callback_threw [OF threw, of k ki i fc] Cons.prems show ?thesis by auto
  qed
qed

lemma settle_hls_within_budget:
  assumes "list_all (\<lambda>j. \<not> fetch_threw p store tab (seg_url (batch ! j))) ord"
    and "fc + length (filter (\<lambda>j. fetch_failed p store tab (seg_url (batch ! j))) ord) \<le> 5"
  shows "\<exists>res fc'. settle (hls_callback p store tab k ki batch i) ord results fc = (Inr res, fc')"
  using assms
proof (induction ord arbitrary: results fc)
  case Nil
  then show ?case by simp
next
  case (Cons j js)
  let ?u = "seg_url (batch ! j)"
  let ?next = "results[j := Some (cb_value p store tab k ki batch i j)]"
  from Cons.prems have nt: "\<not> fetch_threw p store tab ?u"
    and rest: "list_all (\<lambda>j. \<not> fetch_threw p store tab (seg_url (batch ! j))) js"
    by simp_all
  show ?case
  proof (cases "fetch_ok p store tab ?u")
    case True
    with Cons.prems(2) fetch_ok_excl [OF True]
    have "fc + length (filter (\<lambda>j. fetch_failed p store tab (seg_url (batch ! j))) js) \<le> 5"
      by simp
    from Cons.IH [OF rest this, of ?next] hls_callback_ok [OF True, of k ki i fc]
    show ?thesis by simp
  next
    case False
    with nt fetch_cases have failed: "fetch_failed p store tab ?u" by blast
    with Cons.prems(2) have lt: "fc < 5"
      and b: "(fc + 1) + length (filter (\<lambda>j. fetch_failed p store tab (seg_url (batch ! j))) js) \<le> 5"
      by simp_all
    from Cons.IH [OF rest b, of ?next] hls_callback_skip [OF failed lt, of k ki i]
    show ?thesis by simp
  qed
qed

lemma settle_hls_over_budget:
  assumes "list_all (\<lambda>j. \<not> fetch_threw p store tab (seg_url (batch ! j))) ord"
    and "5 < fc + length (filter (\<lambda>j. fetch_failed p store tab (seg_url (batch ! j))) ord)"
    and "fc \<le> 5"
  shows "\<exists>j fc'. j \<in> set ord \<and> fetch_failed p store tab (seg_url (batch ! j)) \<and>
           settle (hls_callback p store tab k ki batch i) ord results fc =
             (Inl (TooManySegmentFailures (response_status p store tab (seg_url (batch ! j)))), fc')"
  using assms
proof (induction ord arbitrary: results fc)
  case Nil
  then show ?case by simp
next
  case (Cons j js)
  let ?u = "seg_url (batch ! j)"
  let ?next = "results[j := Some (cb_value p store tab k ki batch i j)]"
  from Cons.prems have nt: "\<not> fetch_threw p store tab ?u"
    and rest: "list_all (\<lambda>j. \<not> fetch_threw p store tab (seg_url (batch ! j))) js"
    by simp_all
  show ?case
  proof (cases "fetch_ok p store tab ?u")
    case True
    with Cons.prems(2) fetch_ok_excl [OF True]
    have "5 < fc + length (filter (\<lambda>j. fetch_failed p store tab (seg_url (batch ! j))) js)"
      by simp
    from Cons.IH [OF rest this Cons.prems(3), of ?next] hls_callback_ok [OF True, of k ki i fc]
    show ?thesis by auto
  next
    case False
    with nt fetch_cases have failed: "fetch_failed p store tab ?u" by blast
    show ?thesis
    proof (cases "5 \<le> fc")
      case True
      from hls_callback_abort [OF failed True, of k ki i] failed show ?thesis by auto
    next
      case False
      then have lt: "fc < 5" by simp
      with Cons.prems(2) failed
      have b: "5 < (fc + 1) + length (filter (\<lambda>j. fetch_failed p store tab (seg_url (batch ! j))) js)"
        and c: "fc + 1 \<le> 5"
        by simp_all
      from Cons.IH [OF rest b c, of ?next] hls_callback_skip [OF failed lt, of k ki i]
      show ?thesis by auto
    qed
  qed
qed

lemma fold_update_length:
  "length (fold (\<lambda>j r. r[j := f j]) ord res) = length res"
  by (induction ord arbitrary: res) auto

lemma fold_update_nth:
  "i < length res \<Longrightarrow>
   fold (\<lambda>j r. r[j := f j]) ord res ! i = (if i \<in> set ord then f i else res ! i)"
  by (induction ord arbitrary: res) (auto simp: nth_list_update)

lemma fold_update_all:
  assumes "set ord = {..<n}"
  shows "fold (\<lambda>j r. r[j := Some (g j)]) ord (replicate n None) = map (\<lambda>j. Some (g j)) [0..<n]"
proof (rule nth_equalityI)
  show "length (fold (\<lambda>j r. r[j := Some (g j)]) ord (replicate n None)) =
        length (map (\<lambda>j. Some (g j)) [0..<n])"
    by (simp add: fold_update_length)
next
  fix i
  assume "i < length (fold (\<lambda>j r. r[j := Some (g j)]) ord (replicate n None))"
  then have i: "i < n" by (simp add: fold_update_length)
  with assms have "i \<in> set ord" by simp
  with i show "fold (\<lambda>j r. r[j := Some (g j)]) ord (replicate n None) ! i =
               map (\<lambda>j. Some (g j)) [0..<n] ! i"
    by (simp add: fold_update_nth)
qed

lemma sorted_positions_set: "sort ord = [0..<n] \<Longrightarrow> set ord = {..<n}"
proof -
  assume "sort ord = [0..<n]"
  then have "set (sort ord) = set [0..<n]" by simp
  then show ?thesis by (simp add: lessThan_atLeast0)
qed

lemma sorted_positions_filter:
  assumes "sort ord = [0..<n]"
  shows "length (filter P ord) = length (filter P [0..<n])"
proof -
  have "length (filter P ord) = length (sort (filter P ord))" by simp
  also have "sort (filter P ord) = filter P (sort ord)" by (simp add: filter_sort)
  finally show ?thesis using assms by simp
qed

lemma filter_positions:
  "length (filter (\<lambda>j. F (xs ! j)) [0..<length xs]) = length (filter F xs)"
proof -
  have "filter F xs = filter F (map (\<lambda>j. xs ! j) [0..<length xs])"
    by (simp add: map_nth)
  also have "\<dots> = map (\<lambda>j. xs ! j) (filter (\<lambda>j. F (xs ! j)) [0..<length xs])"
    by (simp add: filter_map comp_def)
  finally show ?thesis by (metis length_map)
qed

lemma list_all_positions:
  "list_all (\<lambda>j. F (xs ! j)) [0..<length xs] = list_all F xs"
  by (auto simp: list_all_iff in_set_conv_nth Ball_def)

lemma enumerate_positions:
  "enumerate i xs = map (\<lambda>j. (i + j, xs ! j)) [0..<length xs]"
  by (rule nth_equalityI) (simp_all add: nth_enumerate_eq)

lemma filter_Boolean_positions:
  "filter_Boolean (map (\<lambda>j. Some (cb_value p store tab k ki batch i j)) [0..<length batch]) =
   expected_chunks p store tab k ki i batch"
proof -
  have "(case cb_value p store tab k ki batch i j of None \<Rightarrow> [] | Some d \<Rightarrow> [d]) =
        (if fetch_ok p store tab (seg_url (batch ! j))
         then [segment_bytes p store tab k ki (i + j) (batch ! j)] else [])" for j
    by (simp add: cb_value_def)
  then show ?thesis
    by (simp add: filter_Boolean_def expected_chunks_def enumerate_positions comp_def)
qed

lemma expected_chunks_append:
  "expected_chunks p store tab k ki i (xs @ ys) =
   expected_chunks p store tab k ki i xs @ expected_chunks p store tab k ki (i + length xs) ys"
  by (simp add: expected_chunks_def enumerate_append_eq)

lemma count_failed_append:
  "count_failed p store tab (xs @ ys) = count_failed p store tab xs + count_failed p store tab ys"
  by (simp add: count_failed_def)

lemma batch_Inr:
  assumes s: "settle (hls_callback p store tab k ki batch i) ord (replicate (length batch) None) fc =
              (Inr res, fc')"
    and ord: "sort ord = [0..<length batch]"
  shows "filter_Boolean res = expected_chunks p store tab k ki i batch
         \<and> fc' = fc + count_failed p store tab batch
         \<and> (fc \<le> 5 \<longrightarrow> fc' \<le> 5)
         \<and> list_all (\<lambda>seg. \<not> fetch_threw p store tab (seg_url seg)) batch"
proof -
  note r = settle_hls_Inr [OF s]
  from r have "res = fold (\<lambda>j r. r[j := Some (cb_value p store tab k ki batch i j)]) ord
                       (replicate (length batch) None)"
    by blast
  also have "\<dots> = map (\<lambda>j. Some (cb_value p store tab k ki batch i j)) [0..<length batch]"
    using sorted_positions_set [OF ord] by (rule fold_update_all)
  finally have "filter_Boolean res = expected_chunks p store tab k ki i batch"
    by (simp add: filter_Boolean_positions)
  moreover from r have "fc' = fc + length (filter (\<lambda>j. fetch_failed p store tab (seg_url (batch ! j))) ord)"
    by blast
  then have "fc' = fc + count_failed p store tab batch"
    using sorted_positions_filter [OF ord, of "\<lambda>j. fetch_failed p store tab (seg_url (batch ! j))"]
      filter_positions [of "\<lambda>seg. fetch_failed p store tab (seg_url seg)" batch]
    by (simp add: count_failed_def)
  moreover from r have "fc \<le> 5 \<longrightarrow> fc' \<le> 5" by blast
  moreover have "list_all (\<lambda>seg. \<not> fetch_threw p store tab (seg_url seg)) batch"
  proof -
    from r have "list_all (\<lambda>j. \<not> fetch_threw p store tab (seg_url (batch ! j))) ord" by blast
    then have "\<forall>j\<in>set ord. \<not> fetch_threw p store tab (seg_url (batch ! j))"
      by (simp add: list_all_iff)
    with sorted_positions_set [OF ord]
    have "list_all (\<lambda>j. \<not> fetch_threw p store tab (seg_url (batch ! j))) [0..<length batch]"
      by (simp add: list_all_iff)
    then show ?thesis
      using list_all_positions [of "\<lambda>seg. \<not> fetch_threw p store tab (seg_url seg)" batch] by simp
  qed
  ultimately show ?thesis by simp
qed

lemma batch_positions_responded:
  assumes "list_all (\<lambda>seg. \<not> fetch_threw p store tab (seg_url seg)) batch"
    and ord: "sort ord = [0..<length batch]"
  shows "list_all (\<lambda>j. \<not> fetch_threw p store tab (seg_url (batch ! j))) ord"
proof -
  from assms(1) have "list_all (\<lambda>j. \<not> fetch_threw p store tab (seg_url (batch ! j))) [0..<length batch]"
    using list_all_positions [of "\<lambda>seg. \<not> fetch_threw p store tab (seg_url seg)" batch] by simp
  with sorted_positions_set [OF ord] show ?thesis
    by (simp add: list_all_iff)
qed

lemma batch_positions_failed:
  assumes ord: "sort ord = [0..<length batch]"
  shows "length (filter (\<lambda>j. fetch_failed p store tab (seg_url (batch ! j))) ord) =
         count_failed p store tab batch"
  using sorted_positions_filter [OF ord, of "\<lambda>j. fetch_failed p store tab (seg_url (batch ! j))"]
    filter_positions [of "\<lambda>seg. fetch_failed p store tab (seg_url seg)" batch]
  by (simp add: count_failed_def)

lemma batch_within_budget:
  assumes "list_all (\<lambda>seg. \<not> fetch_threw p store tab (seg_url seg)) batch"
    and "sort ord = [0..<length batch]"
    and "fc + count_failed p store tab batch \<le> 5"
  shows "\<exists>res fc'. settle (hls_callback p store tab k ki batch i) ord results fc = (Inr res, fc')"
  using settle_hls_within_budget [OF batch_positions_responded [OF assms(1,2)]]
    assms(3) batch_positions_failed [OF assms(2)]
  by simp

lemma batch_over_budget:
  assumes "list_all (\<lambda>seg. \<not> fetch_threw p store tab (seg_url seg)) batch"
    and "sort ord = [0..<length batch]"
    and "5 < fc + count_failed p store tab batch" and "fc \<le> 5"
  shows "\<exists>seg fc'. seg \<in> set batch \<and> fetch_failed p store tab (seg_url seg) \<and>
           settle (hls_callback p store tab k ki batch i) ord results fc =
             (Inl (TooManySegmentFailures (response_status p store tab (seg_url seg))), fc')"
proof -
  from assms(3) batch_positions_failed [OF assms(2), of p store tab]
  have "5 < fc + length (filter (\<lambda>j. fetch_failed p store tab (seg_url (batch ! j))) ord)"
    by simp
  from settle_hls_over_budget [OF batch_positions_responded [OF assms(1,2)] this assms(4), of k ki i results]
  obtain j fc' where j: "j \<in> set ord" "fetch_failed p store tab (seg_url (batch ! j))"
    "settle (hls_callback p store tab k ki batch i) ord results fc =
       (Inl (TooManySegmentFailures (response_status p store tab (seg_url (batch ! j)))), fc')"
    by blast
  from j(1) sorted_positions_set [OF assms(2)] have "j < length batch" by simp
  then have "batch ! j \<in> set batch" by simp
  with j(2,3) show ?thesis by blast
qed

lemma valid_schedule_at:
  assumes "valid_schedule sched mcd (length segments)" and "i < length segments"
  shows "sort (sched i) = [0..<length (take (batchSize mcd) (drop i segments))]"
proof -
  from assms have "sort (sched i) = [0..<min (batchSize mcd) (length segments - i)]"
    by (simp add: valid_schedule_def list_all_iff)
  then show ?thesis by (simp add: min.commute)
qed

lemma drop_batch:
  "drop i segments = take b (drop i segments) @ drop (i + b) segments"
  by (metis add.commute append_take_drop_id drop_drop)

lemma expected_chunks_drop:
  "expected_chunks p store tab k ki i (drop i segments) =
   expected_chunks p store tab k ki i (take b (drop i segments)) @
   expected_chunks p store tab k ki (i + b) (drop (i + b) segments)"
proof (cases "i + b \<le> length segments")
  case True
  then have "length (take b (drop i segments)) = b" by simp
  then show ?thesis
    using expected_chunks_append [of p store tab k ki i "take b (drop i segments)" "drop (i + b) segments"]
      drop_batch [of i segments b]
    by simp
next
  case False
  then have "drop (i + b) segments = []" by simp
  then show ?thesis
    using drop_batch [of i segments b] by (simp add: expected_chunks_def)
qed

lemma count_failed_drop:
  "count_failed p store tab (drop i segments) =
   count_failed p store tab (take b (drop i segments)) + count_failed p store tab (drop (i + b) segments)"
  using count_failed_append [of p store tab "take b (drop i segments)" "drop (i + b) segments"]
    drop_batch [of i segments b]
  by simp

lemma responded_drop:
  "list_all P (drop i segments) =
   (list_all P (take b (drop i segments)) \<and> list_all P (drop (i + b) segments))"
  using drop_batch [of i segments b] by (metis list_all_append)

lemma hls_loop_step:
  assumes "i < length segments"
    and "settle (hls_callback p store tab k ki (take (batchSize mcd) (drop i segments)) i) (sched i)
           (replicate (length (take (batchSize mcd) (drop i segments))) None) fc = (r, fc')"
  shows "hls_loop p store tab k ki sched mcd segments i chunks fc =
         (case r of
            Inl e \<Rightarrow> Inl e
          | Inr results \<Rightarrow>
              hls_loop p store tab k ki sched mcd segments (i + batchSize mcd)
                (chunks @ filter_Boolean results) fc')"
  using assms by (subst hls_loop.simps) (simp add: Let_def)

lemma hls_loop_done:
  "\<not> i < length segments \<Longrightarrow> hls_loop p store tab k ki sched mcd segments i chunks fc = Inr chunks"
  by (subst hls_loop.simps) simp

lemma hls_loop_Inr:
  "hls_loop p store tab k ki sched mcd segments i chunks fc = Inr cs \<Longrightarrow> fc \<le> 5 \<Longrightarrow>
   valid_schedule sched mcd (length segments) \<Longrightarrow>
         cs = chunks @ expected_chunks p store tab k ki i (drop i segments)
         \<and> fc + count_failed p store tab (drop i segments) \<le> 5
         \<and> list_all (\<lambda>seg. \<not> fetch_threw p store tab (seg_url seg)) (drop i segments)"
proof (induction p store tab k ki sched mcd segments i chunks fc rule: hls_loop.induct)
  case (1 p store tab k ki sched mcd segments i chunks fc)
  show ?case
  proof (cases "i < length segments")
    case False
    with "1.prems" show ?thesis
      by (simp add: hls_loop_done expected_chunks_def count_failed_def)
  next
    case True
    let ?batch = "take (batchSize mcd) (drop i segments)"
    obtain r fc' where s: "settle (hls_callback p store tab k ki ?batch i) (sched i)
                             (replicate (length ?batch) None) fc = (r, fc')"
      by (cases "settle (hls_callback p store tab k ki ?batch i) (sched i)
                   (replicate (length ?batch) None) fc") blast
    note step = hls_loop_step [where sched = sched and chunks = chunks, OF True s]
    show ?thesis
    proof (cases r)
      case (Inl e)
      with step "1.prems"(1) show ?thesis by simp
    next
      case (Inr results)
      from s Inr have s': "settle (hls_callback p store tab k ki ?batch i) (sched i)
                             (replicate (length ?batch) None) fc = (Inr results, fc')"
        by simp
      note b = batch_Inr [OF s' valid_schedule_at [OF "1.prems"(3) True]]
      from b "1.prems"(2) have fc': "fc' \<le> 5" by blast
      from step Inr "1.prems"(1)
      have rec: "hls_loop p store tab k ki sched mcd segments (i + batchSize mcd)
                   (chunks @ filter_Boolean results) fc' = Inr cs"
        by simp
      note ih = "1.IH" [OF True refl s [symmetric] Inr rec fc' "1.prems"(3)]
      from ih b have "cs = chunks @ expected_chunks p store tab k ki i (drop i segments)"
        using expected_chunks_drop [of p store tab k ki i segments "batchSize mcd"] by simp
      moreover from ih b have "fc + count_failed p store tab (drop i segments) \<le> 5"
        using count_failed_drop [of p store tab i segments "batchSize mcd"] by simp
      moreover from ih b
      have "list_all (\<lambda>seg. \<not> fetch_threw p store tab (seg_url seg)) (drop i segments)"
        using responded_drop [of "\<lambda>seg. \<not> fetch_threw p store tab (seg_url seg)" i segments "batchSize mcd"]
        by simp
      ultimately show ?thesis by simp
    qed
  qed
qed

lemma hls_loop_within_budget:
  "valid_schedule sched mcd (length segments) \<Longrightarrow>
   list_all (\<lambda>seg. \<not> fetch_threw p store tab (seg_url seg)) (drop i segments) \<Longrightarrow>
   fc + count_failed p store tab (drop i segments) \<le> 5 \<Longrightarrow>
   \<exists>cs. hls_loop p store tab k ki sched mcd segments i chunks fc = Inr cs"
proof (induction p store tab k ki sched mcd segments i chunks fc rule: hls_loop.induct)
  case (1 p store tab k ki sched mcd segments i chunks fc)
  show ?case
  proof (cases "i < length segments")
    case False
    then show ?thesis by (simp add: hls_loop_done)
  next
    case True
    let ?batch = "take (batchSize mcd) (drop i segments)"
    let ?rest = "drop (i + batchSize mcd) segments"
    let ?nt = "\<lambda>seg. \<not> fetch_threw p store tab (seg_url seg)"
    note ord = valid_schedule_at [OF "1.prems"(1) True]
    from "1.prems"(2) have nb: "list_all ?nt ?batch" and nr: "list_all ?nt ?rest"
      using responded_drop [of ?nt i segments "batchSize mcd"] by simp_all
    from "1.prems"(3)
    have bud: "fc + count_failed p store tab ?batch + count_failed p store tab ?rest \<le> 5"
      using count_failed_drop [of p store tab i segments "batchSize mcd"] by simp
    then have "fc + count_failed p store tab ?batch \<le> 5" by simp
    from batch_within_budget [OF nb ord this, of k ki i "replicate (length ?batch) None"]
    obtain res fc' where s: "settle (hls_callback p store tab k ki ?batch i) (sched i)
                               (replicate (length ?batch) None) fc = (Inr res, fc')"
      by blast
    from batch_Inr [OF s ord] have fc': "fc' = fc + count_failed p store tab ?batch" by blast
    with bud have "fc' + count_failed p store tab ?rest \<le> 5" by simp
    from "1.IH" [OF True refl s [symmetric] refl "1.prems"(1) nr this]
    obtain cs where "hls_loop p store tab k ki sched mcd segments (i + batchSize mcd)
                       (chunks @ filter_Boolean res) fc' = Inr cs"
      by blast
    with hls_loop_step [where sched = sched and chunks = chunks, OF True s]
    show ?thesis by simp
  qed
qed

lemma hls_loop_over_budget:
  "valid_schedule sched mcd (length segments) \<Longrightarrow>
   list_all (\<lambda>seg. \<not> fetch_threw p store tab (seg_url seg)) (drop i segments) \<Longrightarrow>
   5 < fc + count_failed p store tab (drop i segments) \<Longrightarrow> fc \<le> 5 \<Longrightarrow>
   \<exists>seg. seg \<in> set segments \<and> fetch_failed p store tab (seg_url seg) \<and>
     hls_loop p store tab k ki sched mcd segments i chunks fc =
       Inl (TooManySegmentFailures (response_status p store tab (seg_url seg)))"
proof (induction p store tab k ki sched mcd segments i chunks fc rule: hls_loop.induct)
  case (1 p store tab k ki sched mcd segments i chunks fc)
  show ?case
  proof (cases "i < length segments")
    case False
    with "1.prems"(3,4) show ?thesis by (simp add: count_failed_def)
  next
    case True
    let ?batch = "take (batchSize mcd) (drop i segments)"
    let ?rest = "drop (i + batchSize mcd) segments"
    let ?nt = "\<lambda>seg. \<not> fetch_threw p store tab (seg_url seg)"
    note ord = valid_schedule_at [OF "1.prems"(1) True]
    from "1.prems"(2) have nb: "list_all ?nt ?batch" and nr: "list_all ?nt ?rest"
      using responded_drop [of ?nt i segments "batchSize mcd"] by simp_all
    from "1.prems"(3)
    have bud: "5 < fc + count_failed p store tab ?batch + count_failed p store tab ?rest"
      using count_failed_drop [of p store tab i segments "batchSize mcd"] by simp
    show ?thesis
    proof (cases "5 < fc + count_failed p store tab ?batch")
      case over: True
      from batch_over_budget [OF nb ord over "1.prems"(4), of k ki i "replicate (length ?batch) None"]
      obtain seg fc' where seg: "seg \<in> set ?batch" "fetch_failed p store tab (seg_url seg)"
        and s: "settle (hls_callback p store tab k ki ?batch i) (sched i)
                  (replicate (length ?batch) None) fc =
                (Inl (TooManySegmentFailures (response_status p store tab (seg_url seg))), fc')"
        by blast
      from seg(1) have "seg \<in> set segments"
        by (meson in_set_dropD in_set_takeD)
      with seg(2) hls_loop_step [where sched = sched and chunks = chunks, OF True s]
      show ?thesis by auto
    next
      case False
      then have within: "fc + count_failed p store tab ?batch \<le> 5" by simp
      from batch_within_budget [OF nb ord within, of k ki i "replicate (length ?batch) None"]
      obtain res fc' where s: "settle (hls_callback p store tab k ki ?batch i) (sched i)
                                 (replicate (length ?batch) None) fc = (Inr res, fc')"
        by blast
      from batch_Inr [OF s ord] have fc': "fc' = fc + count_failed p store tab ?batch" by blast
      with bud within have b: "5 < fc' + count_failed p store tab ?rest" and c: "fc' \<le> 5"
        by simp_all
      from "1.IH" [OF True refl s [symmetric] refl "1.prems"(1) nr b c]
      obtain seg where "seg \<in> set segments" "fetch_failed p store tab (seg_url seg)"
        "hls_loop p store tab k ki sched mcd segments (i + batchSize mcd)
           (chunks @ filter_Boolean res) fc' =
         Inl (TooManySegmentFailures (response_status p store tab (seg_url seg)))"
        by blast
      with hls_loop_step [where sched = sched and chunks = chunks, OF True s]
      show ?thesis by auto
    qed
  qed
qed

lemma expected_chunks_all_ok:
  "list_all (\<lambda>seg. fetch_ok p store tab (seg_url seg)) segs \<Longrightarrow>
   expected_chunks p store tab k ki i segs =
   map (\<lambda>(idx, seg). segment_bytes p store tab k ki idx seg) (enumerate i segs)"
  by (induction segs arbitrary: i) (simp_all add: expected_chunks_def)

lemma length_expected_chunks:
  "length (expected_chunks p store tab k ki i segs) =
   length (filter (\<lambda>seg. fetch_ok p store tab (seg_url seg)) segs)"
  by (induction segs arbitrary: i) (simp_all add: expected_chunks_def)

lemma ok_plus_failed:
  "list_all (\<lambda>seg. \<not> fetch_threw p store tab (seg_url seg)) segs \<Longrightarrow>
   length (filter (\<lambda>seg. fetch_ok p store tab (seg_url seg)) segs) + count_failed p store tab segs =
   length segs"
proof (induction segs)
  case Nil
  then show ?case by (simp add: count_failed_def)
next
  case (Cons s segs)
  then have nt: "\<not> fetch_threw p store tab (seg_url s)" by simp
  show ?case
  proof (cases "fetch_ok p store tab (seg_url s)")
    case True
    with Cons fetch_ok_excl [OF True] show ?thesis by (simp add: count_failed_def)
  next
    case False
    with nt fetch_cases have "fetch_failed p store tab (seg_url s)" by blast
    with Cons False show ?thesis by (simp add: count_failed_def)
  qed
qed

lemma all_ok_responded:
  "list_all (\<lambda>seg. fetch_ok p store tab (seg_url seg)) segs \<Longrightarrow>
   list_all (\<lambda>seg. \<not> fetch_threw p store tab (seg_url seg)) segs \<and> count_failed p store tab segs = 0"
  by (induction segs) (auto simp: count_failed_def dest: fetch_ok_excl)

lemma downloadHLSSegments_unfold:
  assumes "parseM3U8Segments p content baseUrl \<noteq> []"
  shows "downloadHLSSegments p store mcd sched content baseUrl v tab =
     (case hls_loop p store tab (fetch_key p store tab (parseM3U8Key p content baseUrl))
             (parseM3U8Key p content baseUrl) sched mcd (parseM3U8Segments p content baseUrl) 0 [] 0 of
        Inl e \<Rightarrow> Inl e
      | Inr chunks \<Rightarrow>
          if chunks = [] then Inl NoSegmentsDownloaded
          else Inr \<lparr>dl_source = Blob chunks ''video/mp2t'',
                    dl_filename =
                      sanitizeFilename (strip_ext [''m3u8'', ''m3u'', ''ts''] (filename_or v ''video'') @ ''.ts''),
                    segmentCount = Some (length (parseM3U8Segments p content baseUrl))\<rparr>)"
  using assms by (simp add: downloadHLSSegments_def Let_def)

lemma hls_all_ok:
  assumes ok: "list_all (\<lambda>seg. fetch_ok p store tab (seg_url seg)) (parseM3U8Segments p content baseUrl)"
    and ne: "parseM3U8Segments p content baseUrl \<noteq> []"
    and v: "valid_schedule sched mcd (length (parseM3U8Segments p content baseUrl))"
  shows "downloadHLSSegments p store mcd sched content baseUrl v tab =
         Inr \<lparr>dl_source =
                Blob (map (\<lambda>(idx, seg). segment_bytes p store tab
                                          (fetch_key p store tab (parseM3U8Key p content baseUrl))
                                          (parseM3U8Key p content baseUrl) idx seg)
                          (enumerate 0 (parseM3U8Segments p content baseUrl)))
                     ''video/mp2t'',
               dl_filename =
                 sanitizeFilename (strip_ext [''m3u8'', ''m3u'', ''ts''] (filename_or v ''video'') @ ''.ts''),
               segmentCount = Some (length (parseM3U8Segments p content baseUrl))\<rparr>"
proof -
  let ?segs = "parseM3U8Segments p content baseUrl"
  let ?ki = "parseM3U8Key p content baseUrl"
  let ?k = "fetch_key p store tab ?ki"
  from all_ok_responded [OF ok]
  have nt: "list_all (\<lambda>seg. \<not> fetch_threw p store tab (seg_url seg)) (drop 0 ?segs)"
    and bud: "0 + count_failed p store tab (drop 0 ?segs) \<le> 5"
    by simp_all
  from hls_loop_within_budget [OF v nt bud, of ?k ?ki "[]"]
  obtain cs where loop: "hls_loop p store tab ?k ?ki sched mcd ?segs 0 [] 0 = Inr cs"
    by blast
  from hls_loop_Inr [OF loop _ v]
  have "cs = expected_chunks p store tab ?k ?ki 0 ?segs" by simp
  with expected_chunks_all_ok [OF ok, of ?k ?ki 0]
  have cs: "cs = map (\<lambda>(idx, seg). segment_bytes p store tab ?k ?ki idx seg) (enumerate 0 ?segs)"
    by simp
  then have "length cs = length ?segs" by simp
  with ne have "cs \<noteq> []" by auto
  with loop cs show ?thesis
    by (simp add: downloadHLSSegments_unfold [OF ne])
qed

lemma hls_within_budget:
  assumes v: "valid_schedule sched mcd (length (parseM3U8Segments p content baseUrl))"
    and nt: "list_all (\<lambda>seg. \<not> fetch_threw p store tab (seg_url seg)) (parseM3U8Segments p content baseUrl)"
    and b: "count_failed p store tab (parseM3U8Segments p content baseUrl) \<le> 5"
    and ne: "parseM3U8Segments p content baseUrl \<noteq> []"
  shows "downloadHLSSegments p store mcd sched content baseUrl v tab =
         (if expected_chunks p store tab (fetch_key p store tab (parseM3U8Key p content baseUrl))
               (parseM3U8Key p content baseUrl) 0 (parseM3U8Segments p content baseUrl) = []
          then Inl NoSegmentsDownloaded
          else Inr \<lparr>dl_source =
                      Blob (expected_chunks p store tab
                              (fetch_key p store tab (parseM3U8Key p content baseUrl))
                              (parseM3U8Key p content baseUrl) 0 (parseM3U8Segments p content baseUrl))
                           ''video/mp2t'',
                    dl_filename =
                      sanitizeFilename (strip_ext [''m3u8'', ''m3u'', ''ts''] (filename_or v ''video'') @ ''.ts''),
                    segmentCount = Some (length (parseM3U8Segments p content baseUrl))\<rparr>)"
proof -
  let ?segs = "parseM3U8Segments p content baseUrl"
  let ?ki = "parseM3U8Key p content baseUrl"
  let ?k = "fetch_key p store tab ?ki"
  from hls_loop_within_budget [OF v, of p store tab 0 0 ?k ?ki "[]"] nt b
  obtain cs where loop: "hls_loop p store tab ?k ?ki sched mcd ?segs 0 [] 0 = Inr cs"
    by auto
  from hls_loop_Inr [OF loop _ v] have "cs = expected_chunks p store tab ?k ?ki 0 ?segs"
    by simp
  with loop show ?thesis by (simp add: downloadHLSSegments_unfold [OF ne])
qed

lemma hls_over_budget:
  assumes v: "valid_schedule sched mcd (length (parseM3U8Segments p content baseUrl))"
    and nt: "list_all (\<lambda>seg. \<not> fetch_threw p store tab (seg_url seg)) (parseM3U8Segments p content baseUrl)"
    and b: "5 < count_failed p store tab (parseM3U8Segments p content baseUrl)"
  shows "\<exists>seg. seg \<in> set (parseM3U8Segments p content baseUrl) \<and>
           fetch_failed p store tab (seg_url seg) \<and>
           downloadHLSSegments p store mcd sched content baseUrl v tab =
             Inl (TooManySegmentFailures (response_status p store tab (seg_url seg)))"
proof -
  let ?segs = "parseM3U8Segments p content baseUrl"
  let ?ki = "parseM3U8Key p content baseUrl"
  let ?k = "fetch_key p store tab ?ki"
  from b have ne: "?segs \<noteq> []" by (auto simp: count_failed_def)
  from hls_loop_over_budget [OF v, of p store tab 0 0 ?k ?ki "[]"] nt b
  obtain seg where "seg \<in> set ?segs" "fetch_failed p store tab (seg_url seg)"
    "hls_loop p store tab ?k ?ki sched mcd ?segs 0 [] 0 =
       Inl (TooManySegmentFailures (response_status p store tab (seg_url seg)))"
    by auto
  then show ?thesis by (auto simp: downloadHLSSegments_unfold [OF ne])
qed

lemma hls_none_retrieved:
  assumes v: "valid_schedule sched mcd (length (parseM3U8Segments p content baseUrl))"
    and nt: "list_all (\<lambda>seg. \<not> fetch_threw p store tab (seg_url seg)) (parseM3U8Segments p content baseUrl)"
    and b: "count_failed p store tab (parseM3U8Segments p content baseUrl) \<le> 5"
    and ne: "parseM3U8Segments p content baseUrl \<noteq> []"
    and no: "\<not> list_ex (\<lambda>seg. fetch_ok p store tab (seg_url seg)) (parseM3U8Segments p content baseUrl)"
  shows "downloadHLSSegments p store mcd sched content baseUrl v tab = Inl NoSegmentsDownloaded"
proof -
  let ?segs = "parseM3U8Segments p content baseUrl"
  let ?ki = "parseM3U8Key p content baseUrl"
  let ?k = "fetch_key p store tab ?ki"
  have "length (expected_chunks p store tab ?k ?ki 0 ?segs) =
        length (filter (\<lambda>seg. fetch_ok p store tab (seg_url seg)) ?segs)"
    by (rule length_expected_chunks)
  also from no have "\<dots> = 0" by (simp add: list_ex_iff)
  finally have "expected_chunks p store tab ?k ?ki 0 ?segs = []" by simp
  with hls_within_budget [OF v nt b ne, of v] show ?thesis by simp
qed

subsection \<open>The sample inputs, evaluated\<close>

lemmas platform_simps =
  table_platform_def answer_def no_headers_def authenticatedFetch_def buildAuthHeaders_def
  stored_ctx_def empty_ctx_def truthy_def ok_def resolveUrl_def

lemmas parse_simps =
  parseM3U8Segments_def media_playlist_def js_trim_def js_space_def startsWith_def extinf_field_def
  is_digit_def decimal_value_def digit_val_def

lemma four_segments:
  "parseM3U8Segments (table_platform t r) (media_playlist four_uris) b =
     [\<lparr>seg_url = ''https://h/1.ts'', seg_duration = Fin 4\<rparr>,
      \<lparr>seg_url = ''https://h/2.ts'', seg_duration = Fin 4\<rparr>,
      \<lparr>seg_url = ''https://h/3.ts'', seg_duration = Fin 4\<rparr>,
      \<lparr>seg_url = ''https://h/4.ts'', seg_duration = Fin 4\<rparr>]"
  by (simp add: parse_simps four_uris_def table_platform_def resolveUrl_def)

lemma seven_segments:
  "parseM3U8Segments (table_platform t r) (media_playlist seven_uris) b =
     [\<lparr>seg_url = ''https://h/1.ts'', seg_duration = Fin 4\<rparr>,
      \<lparr>seg_url = ''https://h/2.ts'', seg_duration = Fin 4\<rparr>,
      \<lparr>seg_url = ''https://h/3.ts'', seg_duration = Fin 4\<rparr>,
      \<lparr>seg_url = ''https://h/4.ts'', seg_duration = Fin 4\<rparr>,
      \<lparr>seg_url = ''https://h/5.ts'', seg_duration = Fin 4\<rparr>,
      \<lparr>seg_url = ''https://h/6.ts'', seg_duration = Fin 4\<rparr>,
      \<lparr>seg_url = ''https://h/7.ts'', seg_duration = Fin 4\<rparr>]"
  by (simp add: parse_simps seven_uris_def table_platform_def resolveUrl_def)

lemma two_segments:
  "parseM3U8Segments (table_platform t r) (media_playlist two_uris) b =
     [\<lparr>seg_url = ''https://h/1.ts'', seg_duration = Fin 4\<rparr>,
      \<lparr>seg_url = ''https://h/2.ts'', seg_duration = Fin 4\<rparr>]"
  by (simp add: parse_simps two_uris_def table_platform_def resolveUrl_def)

lemma four_key: "parseM3U8Key p (media_playlist four_uris) b = None"
  by (simp add: parseM3U8Key_def media_playlist_def four_uris_def match_key_def startsWith_def)

lemma seven_key: "parseM3U8Key p (media_playlist seven_uris) b = None"
  by (simp add: parseM3U8Key_def media_playlist_def seven_uris_def match_key_def startsWith_def)

lemma two_key: "parseM3U8Key p (media_playlist two_uris) b = None"
  by (simp add: parseM3U8Key_def media_playlist_def two_uris_def match_key_def startsWith_def)

lemma valid_in_order: "valid_schedule (in_order n) 3 n"
  by (simp add: valid_schedule_def in_order_def batchSize_def list_all_iff)

lemma valid_reversed: "valid_schedule (reversed n) 3 n"
proof -
  have "sort (rev [0..<k]) = [0..<k]" for k :: nat
  proof -
    have "sort (remdups (rev [0..<k])) = sorted_list_of_set (set (rev [0..<k]))"
      by (simp only: sorted_list_of_set_sort_remdups)
    moreover have "remdups (rev [0..<k]) = rev [0..<k]"
      by (rule distinct_remdups_id) simp
    ultimately show ?thesis by simp
  qed
  then show ?thesis
    by (simp add: valid_schedule_def reversed_def batchSize_def list_all_iff)
qed

lemma four_length: "length (parseM3U8Segments (table_platform t r) (media_playlist four_uris) b) = 4"
  by (simp add: four_segments)

lemma seven_length: "length (parseM3U8Segments (table_platform t r) (media_playlist seven_uris) b) = 7"
  by (simp add: seven_segments)

lemma two_length: "length (parseM3U8Segments (table_platform t r) (media_playlist two_uris) b) = 2"
  by (simp add: two_segments)

lemma fetch_key_None: "fetch_key p store tab None = None"
  by (simp add: fetch_key_def)

lemmas fetch_simps = fetch_ok_def fetch_failed_def fetch_threw_def response_status_def

lemma second_denied_download:
  "downloadHLSSegments second_denied no_headers 3 (in_order 4) (media_playlist four_uris)
     ''https://h/index.m3u8'' a_video 1 =
   Inr \<lparr>dl_source = Blob [[1], [3], [4]] ''video/mp2t'',
        dl_filename =
          sanitizeFilename (strip_ext [''m3u8'', ''m3u'', ''ts''] (filename_or a_video ''video'') @ ''.ts''),
        segmentCount = Some 4\<rparr>"
proof -
  let ?segs = "parseM3U8Segments second_denied (media_playlist four_uris) ''https://h/index.m3u8''"
  have v: "valid_schedule (in_order 4) 3 (length ?segs)"
    unfolding second_denied_def four_length by (rule valid_in_order)
  have nt: "list_all (\<lambda>seg. \<not> fetch_threw second_denied no_headers 1 (seg_url seg)) ?segs"
    unfolding second_denied_def four_segments by (simp add: fetch_simps platform_simps)
  have b: "count_failed second_denied no_headers 1 ?segs \<le> 5"
    unfolding second_denied_def four_segments by (simp add: count_failed_def fetch_simps platform_simps)
  have ne: "?segs \<noteq> []"
    unfolding second_denied_def four_segments by simp
  have e: "expected_chunks second_denied no_headers 1 None None 0 ?segs = [[1], [3], [4]]"
    unfolding second_denied_def four_segments
    by (simp add: expected_chunks_def segment_bytes_def fetch_simps platform_simps)
  have l: "length ?segs = 4"
    unfolding second_denied_def by (rule four_length)
  from hls_within_budget [OF v nt b ne, of a_video] show ?thesis
    by (simp only: four_key fetch_key_None e l) simp
qed

subsection \<open>File names and captured headers\<close>

lemma collapse_ws_plain: "list_all (\<lambda>c. \<not> js_space c) s \<Longrightarrow> collapse_ws b s = s"
  by (induction s arbitrary: b) auto

lemma dropWhile_none: "\<forall>c\<in>set xs. \<not> P c \<Longrightarrow> dropWhile P xs = xs"
  by (cases xs) auto

lemma js_trim_plain: "list_all (\<lambda>c. \<not> js_space c) s \<Longrightarrow> js_trim s = s"
proof -
  assume "list_all (\<lambda>c. \<not> js_space c) s"
  then have a: "\<forall>c\<in>set s. \<not> js_space c" by (simp add: list_all_iff)
  then have "dropWhile js_space s = s" by (rule dropWhile_none)
  moreover from a have "dropWhile js_space (rev s) = rev s"
    by (intro dropWhile_none) simp
  ultimately show ?thesis by (simp add: js_trim_def)
qed

lemma sanitizeFilename_plain:
  assumes "list_all (\<lambda>c. \<not> js_space c \<and> \<not> reserved_char c) s"
  shows "sanitizeFilename s = take 200 s"
proof -
  from assms have m: "map (\<lambda>c. if reserved_char c then CHR ''_'' else c) s = s"
    by (induction s) auto
  from assms have "list_all (\<lambda>c. \<not> js_space c) s"
    by (induction s) auto
  then show ?thesis
    by (simp add: sanitizeFilename_def m collapse_ws_plain js_trim_plain)
qed

lemma long_name_ts: "sanitizeFilename (strip_ext [''m3u8'', ''m3u'', ''ts''] long_name @ ''.ts'') = long_name"
proof -
  have s: "strip_ext [''m3u8'', ''m3u'', ''ts''] long_name = long_name"
    by (simp add: strip_ext_def long_name_def to_lower_def) (simp add: eval_nat_numeral)
  have "list_all (\<lambda>c. \<not> js_space c \<and> \<not> reserved_char c) (long_name @ ''.ts'')"
    by (simp add: long_name_def list_all_iff js_space_def reserved_char_def)
  then have "sanitizeFilename (long_name @ ''.ts'') = take 200 (long_name @ ''.ts'')"
    by (rule sanitizeFilename_plain)
  then show ?thesis unfolding s by (simp add: long_name_def)
qed

subsection \<open>DASH segment generation and retrieval\<close>

lemma js_incr_stays:
  "num \<noteq> NaN \<Longrightarrow> num \<noteq> PosInf \<Longrightarrow> js_incr num \<noteq> NaN \<and> js_incr num \<noteq> PosInf"
  by (cases num) (simp_all add: js_incr_def finite_double_def Let_def)

lemma generate_urls_unbounded:
  assumes "generate_urls p v m rid start mx segs num = Some ys"
  shows "\<not> (mx = PosInf \<and> (\<exists>s. start = Fin s) \<and> num \<noteq> NaN \<and> num \<noteq> PosInf)"
proof (rule generate_urls.raw_induct
         [where P = "\<lambda>p v m rid start mx segs num ys.
                       \<not> (mx = PosInf \<and> (\<exists>s. start = Fin s) \<and> num \<noteq> NaN \<and> num \<noteq> PosInf)",
          OF _ assms])
  fix gen :: "platform \<Rightarrow> string \<Rightarrow> string \<Rightarrow> string \<Rightarrow> jsnum \<Rightarrow> jsnum \<Rightarrow> string list \<Rightarrow> jsnum \<Rightarrow> string list option"
  fix p v m rid start mx segs num ys
  assume IH: "\<And>p v m rid start mx segs num ys.
                gen p v m rid start mx segs num = Some ys \<Longrightarrow>
                \<not> (mx = PosInf \<and> (\<exists>s. start = Fin s) \<and> num \<noteq> NaN \<and> num \<noteq> PosInf)"
    and body: "(if js_less num (js_add start mx)
                then gen p v m rid start mx (segs @ [segment_url p v m rid num]) (js_incr num)
                else Some segs) = Some ys"
  show "\<not> (mx = PosInf \<and> (\<exists>s. start = Fin s) \<and> num \<noteq> NaN \<and> num \<noteq> PosInf)"
  proof
    assume a: "mx = PosInf \<and> (\<exists>s. start = Fin s) \<and> num \<noteq> NaN \<and> num \<noteq> PosInf"
    then obtain s where s: "start = Fin s" and mx: "mx = PosInf"
      and n: "num \<noteq> NaN" "num \<noteq> PosInf" by blast
    have "js_less num (js_add start mx)"
      using n by (simp add: s mx js_less_def js_add_def is_inf_def)
    with body have g: "gen p v m rid start mx (segs @ [segment_url p v m rid num]) (js_incr num) = Some ys"
      by simp
    from js_incr_stays [OF n] IH [OF g] a show False by blast
  qed
qed

lemma upt_shift: "map f [0..<Suc n] = f 0 # map (\<lambda>i. f (Suc i)) [0..<n]"
proof -
  have "[0..<Suc n] = 0 # map Suc [0..<n]"
    by (simp only: upt_conv_Cons [OF zero_less_Suc] map_Suc_upt)
  then show ?thesis by (simp add: comp_def)
qed

lemma js_add_int:
  "\<bar>a + b\<bar> \<le> 2 ^ 53 \<Longrightarrow> js_add (Fin (of_int a)) (Fin (of_int b)) = Fin (of_int (a + b))"
  using round_double_int [of "a + b"] by (simp add: js_add_def is_inf_def rat_of_def)

lemma js_incr_int: "\<bar>r + 1\<bar> \<le> 2 ^ 53 \<Longrightarrow> js_incr (Fin (of_int r)) = Fin (of_int (r + 1))"
  using finite_double_int [of "r + 1"] by (simp add: js_incr_def)

lemma js_less_int: "js_less (Fin (of_int a)) (Fin (of_int b)) = (a < b)"
  by (simp add: js_less_def rat_of_def)

text \<open>
  Where the start number and the end of the range are integers of magnitude up to
  \<open>2 ^ 53\<close>, the loop returns one URL for every number of the range.
\<close>

lemma generate_urls_finite:
  assumes "\<bar>s\<bar> \<le> 2 ^ 53" and "\<bar>s + m\<bar> \<le> 2 ^ 53"
  shows "s \<le> r \<Longrightarrow> s + m - r \<le> int k \<Longrightarrow>
   generate_urls p v md rid (Fin (of_int s)) (Fin (of_int m)) segs (Fin (of_int r)) =
   Some (segs @ map (\<lambda>i. segment_url p v md rid (Fin (of_int (r + int i)))) [0..<nat (s + m - r)])"
proof (induction k arbitrary: r segs)
  case 0
  then have "\<not> r < s + m" by simp
  moreover from 0 have "nat (s + m - r) = 0" by simp
  ultimately show ?case
    by (subst generate_urls.simps)
       (simp only: js_add_int [OF assms(2)] js_less_int if_False append_Nil2 list.map upt_0)
next
  case (Suc k)
  show ?case
  proof (cases "r < s + m")
    case False
    moreover from False have "nat (s + m - r) = 0" by simp
    ultimately show ?thesis
      by (subst generate_urls.simps)
         (simp only: js_add_int [OF assms(2)] js_less_int if_False append_Nil2 list.map upt_0)
  next
    case True
    from Suc.prems have "s \<le> r + 1" "s + m - (r + 1) \<le> int k" by simp_all
    note ih = Suc.IH [OF this, of "segs @ [segment_url p v md rid (Fin (of_int r))]"]
    from True Suc.prems(1) assms have b: "\<bar>r + 1\<bar> \<le> 2 ^ 53" by simp
    from True have suc: "nat (s + m - r) = Suc (nat (s + m - (r + 1)))" by simp
    have sh: "map (\<lambda>i. segment_url p v md rid (Fin (of_int (r + int i)))) [0..<Suc n] =
              segment_url p v md rid (Fin (of_int r)) #
              map (\<lambda>i. segment_url p v md rid (Fin (of_int (r + 1 + int i)))) [0..<n]" for n
      by (subst upt_shift) (simp add: ac_simps)
    have "generate_urls p v md rid (Fin (of_int s)) (Fin (of_int m)) segs (Fin (of_int r)) =
          generate_urls p v md rid (Fin (of_int s)) (Fin (of_int m))
            (segs @ [segment_url p v md rid (Fin (of_int r))]) (Fin (of_int (r + 1)))"
      using True
      by (subst generate_urls.simps)
         (simp only: js_add_int [OF assms(2)] js_less_int js_incr_int [OF b] if_True)
    also note ih
    finally show ?thesis
      by (simp only: suc sh) simp
  qed
qed

lemma dash_batch_ok:
  "list_all (fetch_ok p store tab) batch \<Longrightarrow>
   dash_batch p store tab batch = Some (map (body_of p store tab) batch)"
  by (induction batch)
     (auto simp: dash_batch_def fetch_ok_def body_of_def split: sum.splits)

lemma dash_batch_fail:
  "\<not> list_all (fetch_ok p store tab) batch \<Longrightarrow> dash_batch p store tab batch = None"
  by (induction batch)
     (auto simp: dash_batch_def fetch_ok_def split: sum.splits option.splits)

lemma takeWhile_ge: "list_all P (take k xs) \<Longrightarrow> min k (length xs) \<le> length (takeWhile P xs)"
proof (induction xs arbitrary: k)
  case Nil
  then show ?case by simp
next
  case (Cons x xs)
  then show ?case by (cases k) auto
qed

lemma takeWhile_le: "k < length xs \<Longrightarrow> \<not> P (xs ! k) \<Longrightarrow> length (takeWhile P xs) \<le> k"
proof (induction xs arbitrary: k)
  case Nil
  then show ?case by simp
next
  case (Cons x xs)
  then show ?case by (cases k) auto
qed

lemma take_split:
  assumes "min (i + b) (length xs) \<le> R"
  shows "take b (drop i xs) @ drop (i + b) (take R xs) = drop i (take R xs)"
proof (cases "i + b \<le> R")
  case True
  have "drop i (take R xs) = take (R - i) (drop i xs)" by (simp add: drop_take)
  also from True have "R - i = b + (R - (i + b))" by simp
  also have "take (b + (R - (i + b))) (drop i xs) =
             take b (drop i xs) @ take (R - (i + b)) (drop b (drop i xs))"
    by (rule take_add)
  also have "take (R - (i + b)) (drop b (drop i xs)) = drop (i + b) (take R xs)"
    by (simp add: drop_take add.commute)
  finally show ?thesis by simp
next
  case False
  with assms have "length xs \<le> R" by simp
  then have "take R xs = xs" by simp
  moreover from False \<open>length xs \<le> R\<close> have "take b (drop i xs) = drop i xs" "drop (i + b) xs = []"
    by simp_all
  ultimately show ?thesis by simp
qed

lemma dash_loop_closed:
  "batchSize mcd dvd i \<Longrightarrow> list_all (fetch_ok p store tab) (take i segments) \<Longrightarrow>
   dash_loop p store tab mcd segments i chunks =
   chunks @ map (body_of p store tab)
              (drop i (take (retrieved_count p store tab (batchSize mcd) segments) segments))"
proof (induction p store tab mcd segments i chunks rule: dash_loop.induct)
  case (1 p store tab mcd segments i chunks)
  let ?bs = "batchSize mcd"
  let ?n = "length segments"
  let ?j = "first_failure p store tab segments"
  let ?R = "retrieved_count p store tab ?bs segments"
  let ?batch = "take ?bs (drop i segments)"
  have bs: "0 < ?bs" by (simp add: batchSize_def)
  have jn: "?j \<le> ?n" by (simp add: first_failure_def length_takeWhile_le)
  from "1.prems"(2) have ij: "min i ?n \<le> ?j"
    unfolding first_failure_def by (rule takeWhile_ge)
  show ?case
  proof (cases "i < ?n")
    case False
    with ij jn have "?j = ?n" by simp
    then have "?R = ?n" by (simp add: retrieved_count_def)
    with False show ?thesis by (subst dash_loop.simps) simp
  next
    case True
    show ?thesis
    proof (cases "list_all (fetch_ok p store tab) ?batch")
      case ok: True
      note b = dash_batch_ok [OF ok]
      have dvd: "?bs dvd i + ?bs" using "1.prems"(1) by simp
      have "take (i + ?bs) segments = take i segments @ ?batch" by (rule take_add)
      with "1.prems"(2) ok have all: "list_all (fetch_ok p store tab) (take (i + ?bs) segments)"
        by simp
      then have next_j: "min (i + ?bs) ?n \<le> ?j"
        unfolding first_failure_def by (rule takeWhile_ge)
      have R: "min (i + ?bs) ?n \<le> ?R"
      proof (cases "?j = ?n")
        case True
        then show ?thesis by (simp add: retrieved_count_def)
      next
        case False
        with jn next_j have le: "i + ?bs \<le> ?j" by simp
        from dvd obtain q where q: "i + ?bs = ?bs * q" by (auto simp: dvd_def)
        with le bs have "q \<le> ?j div ?bs"
          by (metis div_le_mono nonzero_mult_div_cancel_left less_numeral_extra(3))
        then have "?bs * q \<le> (?j div ?bs) * ?bs" by (simp add: mult.commute)
        then have "min (?bs * q) ?n \<le> (?j div ?bs) * ?bs" by (rule min.coboundedI1)
        with q False show ?thesis by (simp only: retrieved_count_def if_False)
      qed
      from "1.IH" [OF True b dvd all]
      have "dash_loop p store tab mcd segments (i + ?bs) (chunks @ map (body_of p store tab) ?batch) =
            (chunks @ map (body_of p store tab) ?batch) @
            map (body_of p store tab) (drop (i + ?bs) (take ?R segments))" .
      moreover have "dash_loop p store tab mcd segments i chunks =
                     dash_loop p store tab mcd segments (i + ?bs) (chunks @ map (body_of p store tab) ?batch)"
        using True b by (subst dash_loop.simps) simp
      ultimately show ?thesis
        using take_split [OF R] by (metis append_assoc map_append)
    next
      case failed: False
      then obtain t where t: "t < length ?batch" "\<not> fetch_ok p store tab (?batch ! t)"
        by (auto simp: list_all_length)
      then have it: "i + t < ?n" "t < ?bs" by auto
      with t have "\<not> fetch_ok p store tab (segments ! (i + t))" by simp
      with it(1) have "?j \<le> i + t"
        unfolding first_failure_def by (intro takeWhile_le)
      with it ij True have j: "i \<le> ?j" "?j < i + ?bs" "?j < ?n" by simp_all
      from "1.prems"(1) obtain q where q: "i = ?bs * q" by (auto simp: dvd_def)
      with j have "?j div ?bs = q" by (intro div_nat_eqI) simp_all
      with j q have "?R = i" by (simp add: retrieved_count_def mult.commute)
      moreover have "dash_loop p store tab mcd segments i chunks = chunks"
        using True dash_batch_fail [OF failed] by (subst dash_loop.simps) simp
      ultimately show ?thesis by simp
    qed
  qed
qed

lemma three_urls:
  "generate_urls (table_platform t r) ''https://h/manifest.mpd'' ''https://h/chunk-$Number$.m4s'' ''v1''
     (Fin 1) (Fin 3) [] (Fin 1) =
   Some [''https://h/chunk-1.m4s'', ''https://h/chunk-2.m4s'', ''https://h/chunk-3.m4s'']"
proof -
  have "\<bar>1::int\<bar> \<le> 2 ^ 53" "\<bar>(1::int) + 3\<bar> \<le> 2 ^ 53" "(1::int) \<le> 1" "(1::int) + 3 - 1 \<le> int 3"
    by simp_all
  from generate_urls_finite [OF this, of "table_platform t r" "''https://h/manifest.mpd''"
         "''https://h/chunk-$Number$.m4s''" "''v1''" "[]"]
  have "generate_urls (table_platform t r) ''https://h/manifest.mpd'' ''https://h/chunk-$Number$.m4s'' ''v1''
     (Fin 1) (Fin 3) [] (Fin 1) =
     Some (map (\<lambda>i. segment_url (table_platform t r) ''https://h/manifest.mpd'' ''https://h/chunk-$Number$.m4s'' ''v1'' (Fin (of_int (1 + int i)))) [0, 1, 2])"
    by (simp add: upt_rec)
  moreover have "segment_url (table_platform t r) ''https://h/manifest.mpd'' ''https://h/chunk-$Number$.m4s'' ''v1'' (Fin 1) = ''https://h/chunk-1.m4s''"
    by (simp add: segment_url_def resolveUrl_def table_platform_def js_replace_def
          startsWith_def digits_of_nat.simps)
  moreover have "segment_url (table_platform t r) ''https://h/manifest.mpd'' ''https://h/chunk-$Number$.m4s'' ''v1'' (Fin 2) = ''https://h/chunk-2.m4s''"
    by (simp add: segment_url_def resolveUrl_def table_platform_def js_replace_def
          startsWith_def digits_of_nat.simps)
  moreover have "segment_url (table_platform t r) ''https://h/manifest.mpd'' ''https://h/chunk-$Number$.m4s'' ''v1'' (Fin 3) = ''https://h/chunk-3.m4s''"
    by (simp add: segment_url_def resolveUrl_def table_platform_def js_replace_def
          startsWith_def digits_of_nat.simps)
  ultimately show ?thesis by simp
qed

lemma retrieved_all:
  "list_all (fetch_ok p store tab) segments \<Longrightarrow>
   retrieved_count p store tab bs segments = length segments"
proof -
  assume "list_all (fetch_ok p store tab) segments"
  then have eq: "takeWhile (fetch_ok p store tab) segments = segments"
    by (simp add: list_all_iff)
  show ?thesis by (simp only: retrieved_count_def first_failure_def eq simp_thms if_True)
qed


lemma dash_download_closed:
  assumes t: "segmentTemplate rep = Some tmpl" and m: "truthy (media tmpl)"
    and g: "generate_urls p (v_url v) (the (media tmpl)) (rep_id rep) (startNumber tmpl)
              (js_ceil (js_div (Fin 7200) (js_div (duration tmpl) (timescale tmpl)))) []
              (startNumber tmpl) = Some segments"
  shows "downloadDASHSegments p store mcd rep v tab =
         Some (let chunks = init_chunks p store tab v rep tmpl @
                            map (body_of p store tab)
                              (take (retrieved_count p store tab (batchSize mcd) segments) segments)
               in if chunks = [] then Inl NoDASHSegmentsDownloaded
                  else Inr \<lparr>dl_source = Blob chunks ''video/mp4'',
                            dl_filename =
                              sanitizeFilename (strip_ext [''mpd'', ''mp4''] (filename_or v ''video'') @ ''.mp4''),
                            segmentCount = Some (length chunks)\<rparr>)"
proof -
  have "dash_loop p store tab mcd segments 0 (init_chunks p store tab v rep tmpl) =
        init_chunks p store tab v rep tmpl @
        map (body_of p store tab)
          (drop 0 (take (retrieved_count p store tab (batchSize mcd) segments) segments))"
    by (rule dash_loop_closed) simp_all
  with t m g show ?thesis
    by (simp add: downloadDASHSegments_def Let_def)
qed

lemma three_max:
  "js_ceil (js_div (Fin 7200) (js_div (duration three_chunks) (timescale three_chunks))) = Fin 3"
  by (simp add: three_chunks_def js_ceil_def js_div_def sign_bit_def is_inf_def is_zero_def rat_of_def)

lemma templated_generation:
  "generate_urls (table_platform t r) (v_url dash_video) (the (media three_chunks)) (rep_id templated_rep)
     (startNumber three_chunks)
     (js_ceil (js_div (Fin 7200) (js_div (duration three_chunks) (timescale three_chunks)))) []
     (startNumber three_chunks) =
   Some [''https://h/chunk-1.m4s'', ''https://h/chunk-2.m4s'', ''https://h/chunk-3.m4s'']"
  unfolding three_max by (simp add: dash_video_def three_chunks_def templated_rep_def three_urls)

lemma templated_facts:
  "segmentTemplate templated_rep = Some three_chunks" "truthy (media three_chunks)"
  "init_chunks p store tab v templated_rep three_chunks = []"
  by (simp_all add: templated_rep_def three_chunks_def truthy_def init_chunks_def)


lemma middle_missing_fetches:
  "fetch_ok middle_missing no_headers 1 ''https://h/chunk-1.m4s''"
  "\<not> fetch_ok middle_missing no_headers 1 ''https://h/chunk-2.m4s''"
  "fetch_ok middle_missing no_headers 1 ''https://h/chunk-3.m4s''"
  "body_of middle_missing no_headers 1 ''https://h/chunk-1.m4s'' = [1]"
  "body_of middle_missing no_headers 1 ''https://h/chunk-3.m4s'' = [3]"
  by (simp_all add: middle_missing_def fetch_ok_def body_of_def platform_simps)


lemma middle_missing_default_batch:
  "downloadDASHSegments middle_missing no_headers 3 templated_rep dash_video 1 =
   Some (Inl NoDASHSegmentsDownloaded)"
proof -
  have g: "generate_urls middle_missing (v_url dash_video) (the (media three_chunks)) (rep_id templated_rep)
     (startNumber three_chunks)
     (js_ceil (js_div (Fin 7200) (js_div (duration three_chunks) (timescale three_chunks)))) []
     (startNumber three_chunks) =
   Some [''https://h/chunk-1.m4s'', ''https://h/chunk-2.m4s'', ''https://h/chunk-3.m4s'']"
    unfolding middle_missing_def by (rule templated_generation)
  have r: "retrieved_count middle_missing no_headers 1 (batchSize 3)
             [''https://h/chunk-1.m4s'', ''https://h/chunk-2.m4s'', ''https://h/chunk-3.m4s''] = 0"
    by (simp add: retrieved_count_def first_failure_def middle_missing_fetches batchSize_def)
  from dash_download_closed [OF templated_facts(1,2) g, of no_headers 3 1]
  show ?thesis
    unfolding r templated_facts(3) by simp
qed

lemma four_ok_download:
  "downloadHLSSegments four_ok no_headers 3 (in_order 4) (media_playlist four_uris)
     ''https://h/index.m3u8'' v 1 =
   Inr \<lparr>dl_source = Blob [[1], [2], [3], [4]] ''video/mp2t'',
        dl_filename =
          sanitizeFilename (strip_ext [''m3u8'', ''m3u'', ''ts''] (filename_or v ''video'') @ ''.ts''),
        segmentCount = Some 4\<rparr>"
proof -
  let ?segs = "parseM3U8Segments four_ok (media_playlist four_uris) ''https://h/index.m3u8''"
  have segs: "?segs \<noteq> []"
    unfolding four_ok_def four_segments by simp
  have ok: "list_all (\<lambda>seg. fetch_ok four_ok no_headers 1 (seg_url seg)) ?segs"
    unfolding four_ok_def four_segments by (simp add: fetch_simps platform_simps)
  have v: "valid_schedule (in_order 4) 3 (length ?segs)"
    unfolding four_ok_def four_length by (rule valid_in_order)
  have bytes: "map (\<lambda>(idx, seg). segment_bytes four_ok no_headers 1 None None idx seg) (enumerate 0 ?segs) =
               [[1], [2], [3], [4]]"
    unfolding four_ok_def four_segments by (simp add: segment_bytes_def platform_simps)
  have l: "length ?segs = 4"
    unfolding four_ok_def by (rule four_length)
  from hls_all_ok [OF ok segs v, of v] show ?thesis
    by (simp only: four_key fetch_key_None bytes l)
qed

lemma long_name_mp4: "sanitizeFilename (strip_ext [''mpd'', ''mp4''] long_name @ ''.mp4'') = long_name"
proof -
  have s: "strip_ext [''mpd'', ''mp4''] long_name = long_name"
    by (simp add: strip_ext_def long_name_def to_lower_def) (simp add: eval_nat_numeral)
  have "list_all (\<lambda>c. \<not> js_space c \<and> \<not> reserved_char c) (long_name @ ''.mp4'')"
    by (simp add: long_name_def list_all_iff js_space_def reserved_char_def)
  then have "sanitizeFilename (long_name @ ''.mp4'') = take 200 (long_name @ ''.mp4'')"
    by (rule sanitizeFilename_plain)
  then show ?thesis unfolding s by (simp add: long_name_def)
qed

lemma three_ok_download:
  "downloadDASHSegments three_ok no_headers 3 templated_rep long_name_dash_video 1 =
   Some (Inr \<lparr>dl_source = Blob [[1], [2], [3]] ''video/mp4'', dl_filename = long_name,
               segmentCount = Some 3\<rparr>)"
proof -
  have g: "generate_urls three_ok (v_url long_name_dash_video) (the (media three_chunks))
     (rep_id templated_rep) (startNumber three_chunks)
     (js_ceil (js_div (Fin 7200) (js_div (duration three_chunks) (timescale three_chunks)))) []
     (startNumber three_chunks) =
   Some [''https://h/chunk-1.m4s'', ''https://h/chunk-2.m4s'', ''https://h/chunk-3.m4s'']"
    using templated_generation [of _ "[]"]
    by (simp add: three_ok_def long_name_dash_video_def dash_video_def)
  have ok: "list_all (fetch_ok three_ok no_headers 1)
              [''https://h/chunk-1.m4s'', ''https://h/chunk-2.m4s'', ''https://h/chunk-3.m4s'']"
    by (simp add: three_ok_def fetch_ok_def platform_simps)
  have b: "body_of three_ok no_headers 1 ''https://h/chunk-1.m4s'' = [1]"
    "body_of three_ok no_headers 1 ''https://h/chunk-2.m4s'' = [2]"
    "body_of three_ok no_headers 1 ''https://h/chunk-3.m4s'' = [3]"
    by (simp_all add: three_ok_def body_of_def platform_simps)
  have n: "filename_or long_name_dash_video ''video'' = long_name"
    by (simp add: filename_or_def long_name_dash_video_def truthy_def long_name_def)
  from dash_download_closed [OF templated_facts(1,2) g, of no_headers 3 1]
  show ?thesis
    unfolding retrieved_all [OF ok] templated_facts(3) n long_name_mp4 by (simp add: b)
qed

lemma no_ts_suffix: "\<not> (\<exists>stem. long_name = stem @ ''.ts'')"
proof
  assume "\<exists>stem. long_name = stem @ ''.ts''"
  then obtain stem where "long_name = stem @ ''.ts''" ..
  then have "last long_name = last (stem @ ''.ts'')" by (rule arg_cong)
  then have "last long_name = CHR ''s''" by simp
  then show False by (simp add: long_name_def)
qed

lemma no_mp4_suffix: "\<not> (\<exists>stem. long_name = stem @ ''.mp4'')"
proof
  assume "\<exists>stem. long_name = stem @ ''.mp4''"
  then obtain stem where "long_name = stem @ ''.mp4''" ..
  then have "last long_name = last (stem @ ''.mp4'')" by (rule arg_cong)
  then have "last long_name = CHR ''4''" by simp
  then show False by (simp add: long_name_def)
qed

subsection \<open>Quality selection\<close>

lemma list_ex_map: "list_ex P (map f xs) = list_ex (\<lambda>x. P (f x)) xs"
  by (induction xs) auto

lemma find_none: "\<not> list_ex P xs \<Longrightarrow> find P xs = None"
  by (simp add: find_None_iff list_ex_iff)

lemma downloadDASHSegments_selection:
  "downloadDASHSegments p store mcd rep (v\<lparr>selectedQuality := x\<rparr>) tab =
   downloadDASHSegments p store mcd rep v tab"
proof -
  have "init_chunks p store tab (v\<lparr>selectedQuality := x\<rparr>) rep tmpl = init_chunks p store tab v rep tmpl"
    for tmpl
    by (simp add: init_chunks_def)
  moreover have "filename_or (v\<lparr>selectedQuality := x\<rparr>) d = filename_or v d" for d
    by (simp add: filename_or_def)
  ultimately show ?thesis
    by (simp add: downloadDASHSegments_def cong: option.case_cong if_cong)
qed

lemma downloadDirect_selection:
  "downloadDirect (v\<lparr>selectedQuality := x, v_url := u\<rparr>) = downloadDirect (v\<lparr>v_url := u\<rparr>)"
  by (simp add: downloadDirect_def filename_or_def)

lemma downloadDASHSegments_error:
  "downloadDASHSegments p store mcd rep v tab \<noteq> Some (Inl QualityNotFound)"
  by (auto simp: downloadDASHSegments_def Let_def split: option.splits if_splits)

lemma downloadDASH_error: "downloadDASH p store mcd v tab \<noteq> Some (Inl QualityNotFound)"
  by (auto simp: downloadDASH_def Let_def downloadDirect_def downloadDASHSegments_error
           split: sum.splits if_splits)

lemma hls_unmatched:
  assumes "authenticatedFetch p (ensureAuthHeaders p store tab (v_url v)) (v_url v) tab = Inr response"
    and "ok response"
    and "parseM3U8Master p (resp_text response) (v_url v) \<noteq> []"
    and "truthy (selectedQuality v)"
    and "\<not> list_ex (\<lambda>q. q_url q = the (selectedQuality v)) (parseM3U8Master p (resp_text response) (v_url v))"
  shows "downloadHLS p store mcd sched v tab = Inl QualityNotFound"
  using assms(1-4) find_none [OF assms(5)]
  by (simp add: downloadHLS_def Let_def)

lemma dash_unmatched:
  assumes "truthy (selectedQuality v)"
    and "authenticatedFetch p (ensureAuthHeaders p store tab (v_url v)) (v_url v) tab = Inr response"
    and "\<not> list_ex (\<lambda>q. rep_url q = the (selectedQuality v) \<or> rep_id q = the (selectedQuality v))
             (parseMPD p (resp_text response) (v_url v))"
  shows "downloadDASH p store mcd v tab = downloadDASH p store mcd (v\<lparr>selectedQuality := None\<rparr>) tab"
  using assms(1,2) find_none [OF assms(3)]
  by (simp add: downloadDASH_def Let_def truthy_def downloadDASHSegments_selection
        downloadDirect_selection)

section \<open>The file-name sanitiser in general\<close>

text \<open>
  For every name, \<open>sanitizeFilename\<close> returns at most 200 characters, none of them one of
  the reserved characters, every white-space character of the result a single space with
  no white space beside it.
\<close>

lemma sanitizeFilename_length: "length (sanitizeFilename name) \<le> 200"
  by (simp add: sanitizeFilename_def)

lemma set_collapse_ws: "set (collapse_ws b s) \<subseteq> insert CHR '' '' {c \<in> set s. \<not> js_space c}"
  by (induction s arbitrary: b) auto

lemma set_js_trim: "set (js_trim s) \<subseteq> set s"
proof -
  have "set (dropWhile js_space (rev (dropWhile js_space s))) \<subseteq> set (rev (dropWhile js_space s))"
    using set_dropWhileD by fastforce
  also have "\<dots> \<subseteq> set s"
    using set_dropWhileD by fastforce
  finally show ?thesis by (simp add: js_trim_def)
qed

lemma replaced_not_reserved: "\<not> reserved_char (if reserved_char c then CHR ''_'' else c)"
  by (simp add: reserved_char_def)

lemma space_not_reserved: "\<not> reserved_char CHR '' ''"
  by (simp add: reserved_char_def)

lemma set_sanitizeFilename:
  "set (sanitizeFilename name) \<subseteq>
     insert CHR '' '' {c \<in> (\<lambda>c. if reserved_char c then CHR ''_'' else c) ` set name. \<not> js_space c}"
proof -
  let ?m = "map (\<lambda>c. if reserved_char c then CHR ''_'' else c) name"
  have "set (sanitizeFilename name) \<subseteq> set (js_trim (collapse_ws False ?m))"
    unfolding sanitizeFilename_def by (rule set_take_subset)
  also have "\<dots> \<subseteq> set (collapse_ws False ?m)"
    by (rule set_js_trim)
  also have "\<dots> \<subseteq> insert CHR '' '' {c \<in> set ?m. \<not> js_space c}"
    by (rule set_collapse_ws)
  finally show ?thesis
    by (simp only: set_map)
qed

lemma sanitizeFilename_reserved:
  assumes "c \<in> set (sanitizeFilename name)"
  shows "\<not> reserved_char c"
proof -
  from assms set_sanitizeFilename [of name]
  consider "c = CHR '' ''" | d where "c = (if reserved_char d then CHR ''_'' else d)"
    by blast
  then show ?thesis
  proof cases
    case 1
    then show ?thesis by (simp only: space_not_reserved not_False_eq_True)
  next
    case 2
    then show ?thesis by (simp only: replaced_not_reserved not_False_eq_True)
  qed
qed

lemma sanitizeFilename_spaces:
  assumes "c \<in> set (sanitizeFilename name)" and "js_space c"
  shows "c = CHR '' ''"
  using assms set_sanitizeFilename [of name] by blast

lemma no_space_run_Cons:
  "no_space_run (c # r) = ((r = [] \<or> \<not> (js_space c \<and> js_space (hd r))) \<and> no_space_run r)"
  by (cases r) simp_all

lemma no_space_run_collapse_ws:
  "no_space_run (collapse_ws b s) \<and>
   (b \<longrightarrow> collapse_ws b s = [] \<or> \<not> js_space (hd (collapse_ws b s)))"
proof (induction s arbitrary: b)
  case Nil
  show ?case by simp
next
  case (Cons c cs)
  from Cons [of True] Cons [of False] show ?case
    by (simp add: no_space_run_Cons)
qed

lemma no_space_run_suffix: "no_space_run (xs @ ys) \<Longrightarrow> no_space_run ys"
  by (induction xs) (simp_all add: no_space_run_Cons)

lemma no_space_run_prefix: "no_space_run (xs @ ys) \<Longrightarrow> no_space_run xs"
proof (induction xs)
  case Nil
  show ?case by simp
next
  case (Cons x xs)
  then show ?case
    by (cases xs) (simp_all add: no_space_run_Cons)
qed

lemma no_space_run_dropWhile: "no_space_run s \<Longrightarrow> no_space_run (dropWhile P s)"
  using no_space_run_suffix [of "takeWhile P s" "dropWhile P s"] by simp

lemma rev_dropWhile_rev: "rev (dropWhile P (rev s)) @ rev (takeWhile P (rev s)) = s"
proof -
  have "rev (takeWhile P (rev s) @ dropWhile P (rev s)) = s"
    by (simp only: takeWhile_dropWhile_id rev_rev_ident)
  then show ?thesis
    by (simp only: rev_append)
qed

lemma no_space_run_js_trim: "no_space_run s \<Longrightarrow> no_space_run (js_trim s)"
proof -
  assume "no_space_run s"
  then have "no_space_run (dropWhile js_space s)"
    by (rule no_space_run_dropWhile)
  then have "no_space_run (rev (dropWhile js_space (rev (dropWhile js_space s))) @
                           rev (takeWhile js_space (rev (dropWhile js_space s))))"
    by (simp only: rev_dropWhile_rev)
  then show ?thesis
    unfolding js_trim_def by (rule no_space_run_prefix)
qed

lemma no_space_run_take: "no_space_run s \<Longrightarrow> no_space_run (take n s)"
  using no_space_run_prefix [of "take n s" "drop n s"] by simp

lemma sanitizeFilename_no_space_run: "no_space_run (sanitizeFilename name)"
  unfolding sanitizeFilename_def
  by (intro no_space_run_take no_space_run_js_trim conjunct1 [OF no_space_run_collapse_ws])

text \<open>
  An extension that the caller appended survives up to the cut at 200 characters: the
  saved name is the first 200 characters of the cleaned stem followed by the extension.
\<close>

lemma collapse_ws_plain_suffix:
  "\<forall>c \<in> set z. \<not> js_space c \<Longrightarrow> collapse_ws b (y @ z) = collapse_ws b y @ z"
proof (induction y arbitrary: b)
  case Nil
  then show ?case by (induction z arbitrary: b) simp_all
next
  case (Cons c cs)
  then show ?case by simp
qed

lemma js_trim_plain_suffix:
  assumes "\<forall>c \<in> set z. \<not> js_space c" and "z \<noteq> []"
  shows "js_trim (y @ z) = dropWhile js_space y @ z"
proof -
  from assms have z_first: "\<not> js_space (hd z)" and z_last: "\<not> js_space (last z)"
    by simp_all
  from z_first assms(2) have "dropWhile js_space (y @ z) = dropWhile js_space y @ z"
    by (cases z) (simp_all add: dropWhile_append)
  moreover from z_last assms(2) have "dropWhile js_space (rev z @ r) = rev z @ r" for r
    by (cases "rev z") (simp_all add: last_rev [symmetric] del: last_rev)
  ultimately show ?thesis
    by (simp add: js_trim_def)
qed

lemma sanitizeFilename_suffix:
  assumes "\<forall>c \<in> set ext. \<not> js_space c \<and> \<not> reserved_char c" and "ext \<noteq> []"
  shows "sanitizeFilename (stem @ ext) =
           take 200 (dropWhile js_space
             (collapse_ws False (map (\<lambda>c. if reserved_char c then CHR ''_'' else c) stem)) @ ext)"
proof -
  from assms(1) have "map (\<lambda>c. if reserved_char c then CHR ''_'' else c) ext = ext"
    by (simp add: map_idI)
  with assms show ?thesis
    by (simp add: sanitizeFilename_def collapse_ws_plain_suffix js_trim_plain_suffix)
qed

lemma ts_plain: "\<forall>c \<in> set ''.ts''. \<not> js_space c \<and> \<not> reserved_char c"
  by (simp add: js_space_def reserved_char_def)

lemma mp4_plain: "\<forall>c \<in> set ''.mp4''. \<not> js_space c \<and> \<not> reserved_char c"
  by (simp add: js_space_def reserved_char_def)

lemma sanitizeFilename_ts:
  "sanitizeFilename (stem @ ''.ts'') =
     take 200 (dropWhile js_space
       (collapse_ws False (map (\<lambda>c. if reserved_char c then CHR ''_'' else c) stem)) @ ''.ts'')"
  by (rule sanitizeFilename_suffix [OF ts_plain]) simp

lemma sanitizeFilename_mp4:
  "sanitizeFilename (stem @ ''.mp4'') =
     take 200 (dropWhile js_space
       (collapse_ws False (map (\<lambda>c. if reserved_char c then CHR ''_'' else c) stem)) @ ''.mp4'')"
  by (rule sanitizeFilename_suffix [OF mp4_plain]) simp

subsection \<open>Where the rounding shows\<close>

text \<open>
  Three places where the worker computes with doubles and the result is not the one of
  exact arithmetic. A bandwidth above \<open>2 ^ 53\<close> is read as the nearest double, so that
  two different declared bandwidths may be read as the same Number.
\<close>

lemma round_double_2_53_1: "round_double 9007199254740993 = Fin 9007199254740992"
  using round_double_at [of 53 9007199254740993 4503599627370496] by simp

lemma bandwidth_beyond_2_53:
  "parseInt10 ''9007199254740993'' = Fin 9007199254740992
   \<and> parseInt10 ''9007199254740992'' = Fin 9007199254740992"
  by (simp add: parseInt10_def decimal_value_def digit_val_def round_double_2_53_1)

text \<open>
  A segment duration of 1440 / 19 seconds is rounded, and 7200 divided by it is a little
  more than 95: the worker generates 96 URLs where the exact quotient is 95.
\<close>

lemma rounded_duration: "js_div (Fin 1440) (Fin 19) = Fin (666651260630501 / 8796093022208)"
  using round_double_at [of 6 "1440 / 19" 5333210085044008]
  by (simp add: js_div_def sign_bit_def is_inf_def is_zero_def rat_of_def)

lemma rounded_quotient:
  "js_div (Fin 7200) (Fin (666651260630501 / 8796093022208)) = Fin (6685030696878081 / 70368744177664)"
  using round_double_at [of 6 "7200 / (666651260630501 / 8796093022208)" 6685030696878080]
  by (simp add: js_div_def sign_bit_def is_inf_def is_zero_def rat_of_def)

lemma quotient_of_rounded_duration:
  "js_ceil (js_div (Fin 7200) (js_div (Fin 1440) (Fin 19))) = Fin 96"
proof -
  have "\<lceil>6685030696878081 / 70368744177664 :: rat\<rceil> = 96"
    by (rule ceiling_unique) simp_all
  then show ?thesis
    unfolding rounded_duration rounded_quotient by (simp add: js_ceil_def)
qed

text \<open>
  From \<open>2 ^ 53\<close> on, adding one to a number may return the number itself: the loop that
  generates the segment URLs then never ends.
\<close>

lemma generate_urls_stalls:
  assumes "generate_urls p v m rid start mx segs num = Some ys"
  shows "\<not> (js_incr num = num \<and> js_less num (js_add start mx))"
proof (rule generate_urls.raw_induct
         [where P = "\<lambda>p v m rid start mx segs num ys.
                       \<not> (js_incr num = num \<and> js_less num (js_add start mx))",
          OF _ assms])
  fix gen :: "platform \<Rightarrow> string \<Rightarrow> string \<Rightarrow> string \<Rightarrow> jsnum \<Rightarrow> jsnum \<Rightarrow> string list \<Rightarrow> jsnum \<Rightarrow> string list option"
  fix p v m rid start mx segs num ys
  assume IH: "\<And>p v m rid start mx segs num ys.
                gen p v m rid start mx segs num = Some ys \<Longrightarrow>
                \<not> (js_incr num = num \<and> js_less num (js_add start mx))"
    and body: "(if js_less num (js_add start mx)
                then gen p v m rid start mx (segs @ [segment_url p v m rid num]) (js_incr num)
                else Some segs) = Some ys"
  show "\<not> (js_incr num = num \<and> js_less num (js_add start mx))"
  proof
    assume a: "js_incr num = num \<and> js_less num (js_add start mx)"
    with body have "gen p v m rid start mx (segs @ [segment_url p v m rid num]) num = Some ys"
      by simp
    from IH [OF this] a show False by blast
  qed
qed

lemma round_double_2_53_3: "round_double 9007199254740995 = Fin 9007199254740996"
  using round_double_at [of 53 9007199254740995 4503599627370497] by simp

lemma increment_stalls_at_2_53:
  "js_incr (Fin 9007199254740992) = Fin 9007199254740992
   \<and> js_less (Fin 9007199254740992) (js_add (Fin 9007199254740992) (Fin 3))"
proof -
  have "nearest_double 9007199254740993 = 9007199254740992"
    using round_double_2_53_1 by (simp add: round_double_def finite_double_def Let_def split: if_splits)
  then have "js_incr (Fin 9007199254740992) = Fin 9007199254740992"
    by (simp add: js_incr_def finite_double_def)
  moreover have "js_add (Fin 9007199254740992) (Fin 3) = Fin 9007199254740996"
    by (simp add: js_add_def is_inf_def rat_of_def round_double_2_53_3)
  ultimately show ?thesis
    by (simp add: js_less_def rat_of_def)
qed

lemma start_number_2_53_never_returns:
  "generate_urls p v m rid (Fin 9007199254740992) (Fin 3) [] (Fin 9007199254740992) = None"
proof (cases "generate_urls p v m rid (Fin 9007199254740992) (Fin 3) [] (Fin 9007199254740992)")
  case None
  then show ?thesis .
next
  case (Some ys)
  from generate_urls_stalls [OF Some] increment_stalls_at_2_53 show ?thesis by blast
qed

subsection \<open>DASH segment retrieval\<close>




text \<open>
  C6. A segment template whose duration is 0 (the value \<^verbatim>\<open>parseMPD\<close> fills in for a
  missing attribute) with a positive timescale and a finite start number makes
  \<^verbatim>\<open>maxSegments\<close> infinite: the loop that generates the segment URLs never ends and the
  download never returns, where the claim promises a finite list.
\<close>

theorem dash_zero_duration_never_returns:
  assumes "segmentTemplate rep = Some tmpl" and "truthy (media tmpl)"
    and "duration tmpl = Fin 0" and "timescale tmpl = Fin t" and "0 < t"
    and "startNumber tmpl = Fin s"
  shows "js_ceil (js_div (Fin 7200) (js_div (duration tmpl) (timescale tmpl))) = PosInf
         \<and> generate_urls p (v_url v) (the (media tmpl)) (rep_id rep) (startNumber tmpl)
              (js_ceil (js_div (Fin 7200) (js_div (duration tmpl) (timescale tmpl)))) []
              (startNumber tmpl) = None
         \<and> downloadDASHSegments p store mcd rep v tab = None"
proof -
  from assms(3,4,5)
  have mx: "js_ceil (js_div (Fin 7200) (js_div (duration tmpl) (timescale tmpl))) = PosInf"
    by (simp add: js_ceil_def js_div_def sign_bit_def is_inf_def is_zero_def rat_of_def)
  have g: "generate_urls p (v_url v) (the (media tmpl)) (rep_id rep) (startNumber tmpl) PosInf []
             (startNumber tmpl) = None"
  proof (cases "generate_urls p (v_url v) (the (media tmpl)) (rep_id rep) (startNumber tmpl) PosInf []
                  (startNumber tmpl)")
    case None
    then show ?thesis .
  next
    case (Some ys)
    from generate_urls_unbounded [OF Some] assms(6) show ?thesis by simp
  qed
  with assms(1,2) mx have "downloadDASHSegments p store mcd rep v tab = None"
    by (simp add: downloadDASHSegments_def)
  with mx g show ?thesis by simp
qed

theorem dash_zero_duration_never_returns_witness:
  "downloadDASHSegments three_ok no_headers 3 default_rep dash_video 1 = None"
proof -
  have "segmentTemplate default_rep = Some default_template" "truthy (media default_template)"
    "duration default_template = Fin 0" "timescale default_template = Fin 1" "(0::rat) < 1"
    "startNumber default_template = Fin 1"
    by (simp_all add: default_rep_def default_template_def truthy_def)
  from dash_zero_duration_never_returns [OF this, of three_ok dash_video no_headers 3 1]
  show ?thesis by simp
qed

section \<open>The claims\<close>

subsection \<open>HLS segment retrieval\<close>

text \<open>
  C1. For every HLS segmented download over a segment list whose fetches all succeed, the
  assembled output is the concatenation of the segment bytes in segment-list order, and
  it is the same for every completion order of the concurrent requests of each batch:
  two runs under any two schedules hand the same file to the browser. The bytes of a
  segment are the body of its response, decrypted when the playlist names a key that
  could be fetched.
\<close>

theorem hls_reassembly_order_stable:
  assumes "list_all (\<lambda>seg. fetch_ok p store tab (seg_url seg)) (parseM3U8Segments p content baseUrl)"
    and "parseM3U8Segments p content baseUrl \<noteq> []"
    and "valid_schedule sched mcd (length (parseM3U8Segments p content baseUrl))"
    and "valid_schedule sched' mcd (length (parseM3U8Segments p content baseUrl))"
  shows "\<exists>d chunks.
           downloadHLSSegments p store mcd sched content baseUrl v tab = Inr d
           \<and> dl_source d = Blob chunks ''video/mp2t''
           \<and> chunks = map (\<lambda>(idx, seg). segment_bytes p store tab
                                         (fetch_key p store tab (parseM3U8Key p content baseUrl))
                                         (parseM3U8Key p content baseUrl) idx seg)
                         (enumerate 0 (parseM3U8Segments p content baseUrl))
           \<and> blob_bytes chunks =
               concat (map (\<lambda>(idx, seg). segment_bytes p store tab
                                          (fetch_key p store tab (parseM3U8Key p content baseUrl))
                                          (parseM3U8Key p content baseUrl) idx seg)
                           (enumerate 0 (parseM3U8Segments p content baseUrl)))
           \<and> downloadHLSSegments p store mcd sched' content baseUrl v tab = Inr d"
  using hls_all_ok [OF assms(1,2,3), of v] hls_all_ok [OF assms(1,2,4), of v]
  by (simp add: blob_bytes_def)

theorem hls_reassembly_order_stable_witness:
  "\<exists>d. downloadHLSSegments four_ok no_headers 3 (reversed 4) (media_playlist four_uris)
          ''https://h/index.m3u8'' a_video 1 = Inr d
       \<and> dl_source d = Blob [[1], [2], [3], [4]] ''video/mp2t''
       \<and> downloadHLSSegments four_ok no_headers 3 (in_order 4) (media_playlist four_uris)
          ''https://h/index.m3u8'' a_video 1 = Inr d"
proof -
  let ?segs = "parseM3U8Segments four_ok (media_playlist four_uris) ''https://h/index.m3u8''"
  have segs: "?segs \<noteq> []"
    unfolding four_ok_def four_segments by simp
  have ok: "list_all (\<lambda>seg. fetch_ok four_ok no_headers 1 (seg_url seg)) ?segs"
    unfolding four_ok_def four_segments by (simp add: fetch_simps platform_simps)
  have v: "valid_schedule (reversed 4) 3 (length ?segs)"
    unfolding four_ok_def four_length by (rule valid_reversed)
  have v': "valid_schedule (in_order 4) 3 (length ?segs)"
    unfolding four_ok_def four_length by (rule valid_in_order)
  have bytes: "map (\<lambda>(idx, seg). segment_bytes four_ok no_headers 1 None None idx seg) (enumerate 0 ?segs) =
               [[1], [2], [3], [4]]"
    unfolding four_ok_def four_segments by (simp add: segment_bytes_def platform_simps)
  from hls_reassembly_order_stable [OF ok segs v v', of a_video]
  obtain d chunks where r:
    "downloadHLSSegments four_ok no_headers 3 (reversed 4) (media_playlist four_uris)
       ''https://h/index.m3u8'' a_video 1 = Inr d"
    "dl_source d = Blob chunks ''video/mp2t''"
    "chunks = map (\<lambda>(idx, seg). segment_bytes four_ok no_headers 1
                     (fetch_key four_ok no_headers 1
                        (parseM3U8Key four_ok (media_playlist four_uris) ''https://h/index.m3u8''))
                     (parseM3U8Key four_ok (media_playlist four_uris) ''https://h/index.m3u8'') idx seg)
                   (enumerate 0 ?segs)"
    "downloadHLSSegments four_ok no_headers 3 (in_order 4) (media_playlist four_uris)
       ''https://h/index.m3u8'' a_video 1 = Inr d"
    by blast
  from r(3) have "chunks = [[1], [2], [3], [4]]"
    by (simp only: four_key fetch_key_None bytes)
  with r(1,2,4) show ?thesis by simp
qed

text \<open>
  C2, as amended. Every segment request being answered, a run in which more than five
  segments are answered with a status that is not ok is aborted: nothing is handed to the
  browser and the error is "Too many segment failures (s)", \<open>s\<close> being the status of one
  of the failed responses. The error "No segments downloaded - authentication may have
  expired" is the answer of a different run: one that stays within the budget of five
  failures and retrieves no segment at all.
\<close>

theorem hls_failure_budget:
  assumes "valid_schedule sched mcd (length (parseM3U8Segments p content baseUrl))"
    and "list_all (\<lambda>seg. \<not> fetch_threw p store tab (seg_url seg)) (parseM3U8Segments p content baseUrl)"
  shows "(5 < count_failed p store tab (parseM3U8Segments p content baseUrl) \<longrightarrow>
            (\<exists>seg. seg \<in> set (parseM3U8Segments p content baseUrl) \<and>
               fetch_failed p store tab (seg_url seg) \<and>
               downloadHLSSegments p store mcd sched content baseUrl v tab =
                 Inl (TooManySegmentFailures (response_status p store tab (seg_url seg)))))
         \<and> (count_failed p store tab (parseM3U8Segments p content baseUrl) \<le> 5 \<and>
              parseM3U8Segments p content baseUrl \<noteq> [] \<and>
              \<not> list_ex (\<lambda>seg. fetch_ok p store tab (seg_url seg)) (parseM3U8Segments p content baseUrl) \<longrightarrow>
            downloadHLSSegments p store mcd sched content baseUrl v tab = Inl NoSegmentsDownloaded)"
  using hls_over_budget [OF assms, of v] hls_none_retrieved [OF assms, of v]
  by blast

theorem hls_failure_budget_witness:
  "(\<exists>st. downloadHLSSegments six_denied no_headers 3 (reversed 7) (media_playlist seven_uris)
            ''https://h/index.m3u8'' a_video 1 = Inl (TooManySegmentFailures st))
   \<and> downloadHLSSegments both_denied no_headers 3 (reversed 2) (media_playlist two_uris)
        ''https://h/index.m3u8'' a_video 1 = Inl NoSegmentsDownloaded"
proof -
  let ?seven = "parseM3U8Segments six_denied (media_playlist seven_uris) ''https://h/index.m3u8''"
  let ?two = "parseM3U8Segments both_denied (media_playlist two_uris) ''https://h/index.m3u8''"
  have v7: "valid_schedule (reversed 7) 3 (length ?seven)"
    unfolding six_denied_def seven_length by (rule valid_reversed)
  have nt7: "list_all (\<lambda>seg. \<not> fetch_threw six_denied no_headers 1 (seg_url seg)) ?seven"
    unfolding six_denied_def seven_segments by (simp add: fetch_simps platform_simps)
  have b7: "5 < count_failed six_denied no_headers 1 ?seven"
    unfolding six_denied_def seven_segments by (simp add: count_failed_def fetch_simps platform_simps)
  have v2: "valid_schedule (reversed 2) 3 (length ?two)"
    unfolding both_denied_def two_length by (rule valid_reversed)
  have nt2: "list_all (\<lambda>seg. \<not> fetch_threw both_denied no_headers 1 (seg_url seg)) ?two"
    unfolding both_denied_def two_segments by (simp add: fetch_simps platform_simps)
  have b2: "count_failed both_denied no_headers 1 ?two \<le> 5"
    unfolding both_denied_def two_segments by (simp add: count_failed_def fetch_simps platform_simps)
  have ne2: "?two \<noteq> []"
    unfolding both_denied_def two_segments by simp
  have no2: "\<not> list_ex (\<lambda>seg. fetch_ok both_denied no_headers 1 (seg_url seg)) ?two"
    unfolding both_denied_def two_segments by (simp add: fetch_simps platform_simps)
  from hls_failure_budget [OF v7 nt7, of a_video] b7
  have "\<exists>st. downloadHLSSegments six_denied no_headers 3 (reversed 7) (media_playlist seven_uris)
                ''https://h/index.m3u8'' a_video 1 = Inl (TooManySegmentFailures st)"
    by blast
  moreover from hls_failure_budget [OF v2 nt2, of a_video] b2 ne2 no2
  have "downloadHLSSegments both_denied no_headers 3 (reversed 2) (media_playlist two_uris)
          ''https://h/index.m3u8'' a_video 1 = Inl NoSegmentsDownloaded"
    by blast
  ultimately show ?thesis by blast
qed

text \<open>
  C2 as stated fails: with six of seven segments answered 403 the run is aborted, but its
  error is "Too many segment failures (403)", not the "authentication may have expired"
  error.
\<close>

theorem hls_abort_message_counterexample:
  "downloadHLSSegments six_denied no_headers 3 (in_order 7) (media_playlist seven_uris)
     ''https://h/index.m3u8'' a_video 1 = Inl (TooManySegmentFailures 403)
   \<and> downloadHLSSegments six_denied no_headers 3 (in_order 7) (media_playlist seven_uris)
       ''https://h/index.m3u8'' a_video 1 \<noteq> Inl NoSegmentsDownloaded"
proof -
  let ?seven = "parseM3U8Segments six_denied (media_playlist seven_uris) ''https://h/index.m3u8''"
  have v7: "valid_schedule (in_order 7) 3 (length ?seven)"
    unfolding six_denied_def seven_length by (rule valid_in_order)
  have nt7: "list_all (\<lambda>seg. \<not> fetch_threw six_denied no_headers 1 (seg_url seg)) ?seven"
    unfolding six_denied_def seven_segments by (simp add: fetch_simps platform_simps)
  have b7: "5 < count_failed six_denied no_headers 1 ?seven"
    unfolding six_denied_def seven_segments by (simp add: count_failed_def fetch_simps platform_simps)
  have st: "response_status six_denied no_headers 1 (seg_url seg) = 403"
    if "seg \<in> set ?seven" "fetch_failed six_denied no_headers 1 (seg_url seg)" for seg
    using that unfolding six_denied_def seven_segments
    by (auto simp: fetch_simps platform_simps)
  from hls_over_budget [OF v7 nt7 b7, of a_video] st
  have "downloadHLSSegments six_denied no_headers 3 (in_order 7) (media_playlist seven_uris)
          ''https://h/index.m3u8'' a_video 1 = Inl (TooManySegmentFailures 403)"
    by auto
  then show ?thesis by simp
qed

text \<open>
  C10. For every HLS segmented download that completes successfully, the segmentCount of
  the answer is the number of segments parsed from the media playlist. The number of
  chunks in the file is the number of segments whose request was answered ok; together
  with the failed segments they make up the parsed segments, so that segmentCount
  exceeds the number of chunks as soon as one segment failed within the budget.
\<close>

theorem hls_segment_count_is_parsed_count:
  assumes r: "downloadHLSSegments p store mcd sched content baseUrl v tab = Inr d"
    and v: "valid_schedule sched mcd (length (parseM3U8Segments p content baseUrl))"
  shows "segmentCount d = Some (length (parseM3U8Segments p content baseUrl))
         \<and> (\<exists>chunks. dl_source d = Blob chunks ''video/mp2t''
               \<and> length chunks =
                   length (filter (\<lambda>seg. fetch_ok p store tab (seg_url seg))
                             (parseM3U8Segments p content baseUrl))
               \<and> length chunks + count_failed p store tab (parseM3U8Segments p content baseUrl) =
                   length (parseM3U8Segments p content baseUrl)
               \<and> (0 < count_failed p store tab (parseM3U8Segments p content baseUrl) \<longrightarrow>
                    length chunks < length (parseM3U8Segments p content baseUrl)))"
proof -
  let ?segs = "parseM3U8Segments p content baseUrl"
  let ?ki = "parseM3U8Key p content baseUrl"
  let ?k = "fetch_key p store tab ?ki"
  from r have ne: "?segs \<noteq> []"
    by (auto simp: downloadHLSSegments_def Let_def)
  from r obtain cs where loop: "hls_loop p store tab ?k ?ki sched mcd ?segs 0 [] 0 = Inr cs"
    and d: "d = \<lparr>dl_source = Blob cs ''video/mp2t'',
                 dl_filename =
                   sanitizeFilename (strip_ext [''m3u8'', ''m3u'', ''ts''] (filename_or v ''video'') @ ''.ts''),
                 segmentCount = Some (length ?segs)\<rparr>"
    by (auto simp: downloadHLSSegments_unfold [OF ne] split: sum.splits if_splits)
  from hls_loop_Inr [OF loop _ v]
  have cs: "cs = expected_chunks p store tab ?k ?ki 0 ?segs"
    and nt: "list_all (\<lambda>seg. \<not> fetch_threw p store tab (seg_url seg)) ?segs"
    by simp_all
  from cs have len: "length cs = length (filter (\<lambda>seg. fetch_ok p store tab (seg_url seg)) ?segs)"
    by (simp add: length_expected_chunks)
  with ok_plus_failed [OF nt] have "length cs + count_failed p store tab ?segs = length ?segs"
    by simp
  with d len show ?thesis by simp
qed

theorem hls_segment_count_is_parsed_count_witness:
  "\<exists>d chunks.
     downloadHLSSegments second_denied no_headers 3 (in_order 4) (media_playlist four_uris)
       ''https://h/index.m3u8'' a_video 1 = Inr d
     \<and> segmentCount d = Some 4 \<and> dl_source d = Blob chunks ''video/mp2t'' \<and> length chunks = 3"
proof -
  let ?segs = "parseM3U8Segments second_denied (media_playlist four_uris) ''https://h/index.m3u8''"
  have v: "valid_schedule (in_order 4) 3 (length ?segs)"
    unfolding second_denied_def four_length by (rule valid_in_order)
  have l: "length ?segs = 4"
    unfolding second_denied_def by (rule four_length)
  have c: "count_failed second_denied no_headers 1 ?segs = 1"
    unfolding second_denied_def four_segments by (simp add: count_failed_def fetch_simps platform_simps)
  from hls_segment_count_is_parsed_count [OF second_denied_download v]
  show ?thesis
    unfolding l c by (simp add: second_denied_download)
qed

subsection \<open>File names\<close>

text \<open>
  C9. The saved name is cut to 200 characters after the extension has been appended, so
  a name of 198 characters or more loses the extension: for a name of 200 letters the
  HLS download saves the 200 letters without \<^verbatim>\<open>.ts\<close> and the DASH download saves them
  without \<^verbatim>\<open>.mp4\<close>, where the claim promises a name that ends with the extension.
\<close>

theorem long_name_loses_extension:
  "downloadHLSSegments four_ok no_headers 3 (in_order 4) (media_playlist four_uris)
     ''https://h/index.m3u8'' long_name_video 1 =
     Inr \<lparr>dl_source = Blob [[1], [2], [3], [4]] ''video/mp2t'', dl_filename = long_name,
          segmentCount = Some 4\<rparr>
   \<and> downloadDASHSegments three_ok no_headers 3 templated_rep long_name_dash_video 1 =
     Some (Inr \<lparr>dl_source = Blob [[1], [2], [3]] ''video/mp4'', dl_filename = long_name,
                 segmentCount = Some 3\<rparr>)
   \<and> length long_name = 200
   \<and> \<not> (\<exists>stem. long_name = stem @ ''.ts'')
   \<and> \<not> (\<exists>stem. long_name = stem @ ''.mp4'')"
proof -
  have n: "filename_or long_name_video ''video'' = long_name"
    by (simp add: filename_or_def long_name_video_def truthy_def long_name_def)
  have "downloadHLSSegments four_ok no_headers 3 (in_order 4) (media_playlist four_uris)
          ''https://h/index.m3u8'' long_name_video 1 =
        Inr \<lparr>dl_source = Blob [[1], [2], [3], [4]] ''video/mp2t'', dl_filename = long_name,
             segmentCount = Some 4\<rparr>"
    using four_ok_download [of long_name_video] unfolding n long_name_ts .
  moreover have "length long_name = 200" by (simp add: long_name_def)
  ultimately show ?thesis
    using three_ok_download no_ts_suffix no_mp4_suffix by simp
qed

subsection \<open>Captured request headers\<close>

text \<open>
  C5. The merge of newly captured headers into the stored context of a tab lets every
  newly captured field replace the stored one: a stored cookie is replaced by the cookie
  of the later request, the stored referer of the page is replaced by the origin of the
  segment URL (a fallback the listener makes up when the request carries no referer), and
  the stored custom headers are replaced as a whole, so that a custom header captured
  earlier is lost. The claim promises that stored non-empty fields are preserved.
\<close>

theorem merge_replaces_stored_fields:
  "stored_session 1 =
     Some \<lparr>cookie = Some ''session=A'', authorization = None,
           referer = Some ''https://site.example/watch'', origin = None,
           custom = Some [(''X-Token'', ''t1'')]\<rparr>
   \<and> onBeforeSendHeaders origin_platform stored_session segment_request 1 =
     Some \<lparr>cookie = Some ''session=B'', authorization = None,
           referer = Some ''https://cdn.example/'', origin = None,
           custom = Some [(''X-Other'', ''z'')]\<rparr>"
  by (simp add: onBeforeSendHeaders_def segment_request_def stored_session_def origin_platform_def
        table_platform_def isStream_def HLS_PATTERNS_def DASH_PATTERNS_def VIDEO_EXTENSIONS_def
        ext_test_def match_ext_def to_lower_def startsWith_def capture_header_def empty_ctx_def
        truthy_def spread_def stored_ctx_def Let_def)

subsection \<open>Manifest parsing\<close>






subsection \<open>Quality selection\<close>

text \<open>
  C4, as amended. For an HLS acquisition whose master playlist is fetched and parses to a
  non-empty list, a requested quality that is the URL of no representation ends the run
  with the error "Quality not found". A DASH acquisition has no such error: a requested
  quality that is the id or URL of no representation is ignored, and the run is the run
  of the same descriptor without a requested quality (the default representation is
  downloaded).
\<close>

theorem unmatched_quality:
  "(authenticatedFetch p (ensureAuthHeaders p store tab (v_url v)) (v_url v) tab = Inr response \<and>
    ok response \<and> parseM3U8Master p (resp_text response) (v_url v) \<noteq> [] \<and>
    truthy (selectedQuality v) \<and>
    \<not> list_ex (\<lambda>q. q_url q = the (selectedQuality v))
         (parseM3U8Master p (resp_text response) (v_url v)) \<longrightarrow>
    downloadHLS p store mcd sched v tab = Inl QualityNotFound)
   \<and> (authenticatedFetch p (ensureAuthHeaders p store tab (v_url v)) (v_url v) tab = Inr response \<and>
       truthy (selectedQuality v) \<and>
       \<not> list_ex (\<lambda>q. rep_url q = the (selectedQuality v) \<or> rep_id q = the (selectedQuality v))
            (parseMPD p (resp_text response) (v_url v)) \<longrightarrow>
       downloadDASH p store mcd v tab = downloadDASH p store mcd (v\<lparr>selectedQuality := None\<rparr>) tab)
   \<and> downloadDASH p store mcd v tab \<noteq> Some (Inl QualityNotFound)"
  using hls_unmatched [of p store tab v response mcd sched]
    dash_unmatched [of v p store tab response mcd] downloadDASH_error [of p store mcd v tab]
  by blast

theorem unmatched_quality_witness:
  "downloadHLS hls_site no_headers 3 (in_order 4) (unknown_quality a_video) 1 = Inl QualityNotFound
   \<and> downloadDASH dash_site no_headers 3 (unknown_quality dash_video) 1 =
     downloadDASH dash_site no_headers 3 dash_video 1"
proof -
  let ?master = "\<lparr>status = 200, resp_text = master_playlist [3000000, 1200000], resp_bytes = []\<rparr>"
  have e: "ensureAuthHeaders (table_platform t r) no_headers 1 u = no_headers" for t r u
    by (simp add: ensureAuthHeaders_def no_headers_def getCookiesForUrl_def table_platform_def
          truthy_def)
  have f: "authenticatedFetch hls_site (ensureAuthHeaders hls_site no_headers 1 (v_url (unknown_quality a_video)))
             (v_url (unknown_quality a_video)) 1 = Inr ?master"
    unfolding hls_site_def e
    by (simp add: unknown_quality_def a_video_def platform_simps)
  have o: "ok ?master" by (simp add: ok_def)
  have q: "map q_url (parseM3U8Master hls_site (resp_text ?master) (v_url (unknown_quality a_video))) =
           [''https://h/3000000.m3u8'', ''https://h/1200000.m3u8'']"
    by (simp add: master_simps hls_site_def table_platform_def resolveUrl_def)
  then have ne: "parseM3U8Master hls_site (resp_text ?master) (v_url (unknown_quality a_video)) \<noteq> []"
    by auto
  have s: "truthy (selectedQuality (unknown_quality a_video))"
    "the (selectedQuality (unknown_quality a_video)) = ''nope''"
    by (simp_all add: unknown_quality_def truthy_def)
  have "\<not> list_ex (\<lambda>u. u = ''nope'')
            (map q_url (parseM3U8Master hls_site (resp_text ?master) (v_url (unknown_quality a_video))))"
    unfolding q by simp
  then have nm: "\<not> list_ex (\<lambda>q. q_url q = the (selectedQuality (unknown_quality a_video)))
                     (parseM3U8Master hls_site (resp_text ?master) (v_url (unknown_quality a_video)))"
    unfolding s(2) list_ex_map .
  let ?mpd = "answer 200 []"
  have f': "authenticatedFetch dash_site
              (ensureAuthHeaders dash_site no_headers 1 (v_url (unknown_quality dash_video)))
              (v_url (unknown_quality dash_video)) 1 = Inr ?mpd"
    unfolding dash_site_def e
    by (simp add: unknown_quality_def dash_video_def platform_simps)
  have s': "truthy (selectedQuality (unknown_quality dash_video))"
    by (simp add: unknown_quality_def truthy_def)
  have nm': "\<not> list_ex (\<lambda>q. rep_url q = the (selectedQuality (unknown_quality dash_video)) \<or>
                            rep_id q = the (selectedQuality (unknown_quality dash_video)))
                  (parseMPD dash_site (resp_text ?mpd) (v_url (unknown_quality dash_video)))"
    by (simp add: parseMPD_def js_sort_def dash_site_def table_platform_def direct_rep_def unknown_quality_def)
  have u: "(unknown_quality dash_video)\<lparr>selectedQuality := None\<rparr> = dash_video"
    by (simp add: unknown_quality_def dash_video_def)
  from unmatched_quality [of hls_site no_headers 1 "unknown_quality a_video" ?master 3 "in_order 4"]
    f o ne s(1) nm
  have "downloadHLS hls_site no_headers 3 (in_order 4) (unknown_quality a_video) 1 = Inl QualityNotFound"
    by blast
  moreover from unmatched_quality [of dash_site no_headers 1 "unknown_quality dash_video" ?mpd 3]
    f' s' nm'
  have "downloadDASH dash_site no_headers 3 (unknown_quality dash_video) 1 =
        downloadDASH dash_site no_headers 3 ((unknown_quality dash_video)\<lparr>selectedQuality := None\<rparr>) 1"
    by blast
  ultimately show ?thesis unfolding u by simp
qed

text \<open>
  C4 as stated fails for DASH: the manifest parses to one representation, the requested
  quality matches neither its id nor its URL, and the run saves the representation
  instead of failing.
\<close>

theorem dash_unmatched_quality_counterexample:
  "parseMPD dash_site [] ''https://h/manifest.mpd'' = [direct_rep]
   \<and> rep_id direct_rep \<noteq> ''nope'' \<and> rep_url direct_rep \<noteq> ''nope''
   \<and> selectedQuality (unknown_quality dash_video) = Some ''nope''
   \<and> downloadDASH dash_site no_headers 3 (unknown_quality dash_video) 1 =
     Some (Inr \<lparr>dl_source = Url ''https://h/v1.mp4'', dl_filename = ''manifest.mpd'',
                 segmentCount = None\<rparr>)"
proof -
  have e: "ensureAuthHeaders (table_platform t r) no_headers 1 u = no_headers" for t r u
    by (simp add: ensureAuthHeaders_def no_headers_def getCookiesForUrl_def table_platform_def
          truthy_def)
  have n: "sanitizeFilename ''manifest.mpd'' = ''manifest.mpd''"
    by (simp add: sanitizeFilename_def reserved_char_def js_space_def js_trim_def)
  have "downloadDASH dash_site no_headers 3 (unknown_quality dash_video) 1 =
        Some (Inr \<lparr>dl_source = Url ''https://h/v1.mp4'', dl_filename = ''manifest.mpd'',
                    segmentCount = None\<rparr>)"
    unfolding downloadDASH_def dash_site_def e
    by (simp add: unknown_quality_def dash_video_def platform_simps parseMPD_def js_sort_def direct_rep_def
          downloadDirect_def filename_or_def n)
  then show ?thesis
    by (simp add: parseMPD_def js_sort_def dash_site_def table_platform_def direct_rep_def unknown_quality_def)
qed

end
